theory Spec2Isabelle
  imports Main
begin

section \<open>The tasking runtime of gake\<close>

text \<open>
  The package \<open>tasking\<close> runs a registry of task functions \<open>func TaskXxx(*tasking.T)\<close>.
  This theory embeds its runtime: the context \<open>T\<close> with its methods, \<open>tRunner\<close>,
  \<open>RunTasks\<close>, \<open>Main\<close>, the alarm, \<open>report\<close>, and the generated \<open>matchString\<close>.

  A task function is input to the runtime. It is represented by the sequence of calls it
  makes into the runtime (\<open>t.Log\<close>, \<open>t.Fail\<close>, \<open>t.Parallel\<close>, \<open>panic\<close>, \<open>defer\<close> ...),
  together with what it writes to standard output and how long its own work takes.
\<close>

subsection \<open>Text\<close>

definition nl :: string where
  "nl = [CHR 0x0A]"

definition tab :: string where
  "tab = [CHR 0x09]"

definition digit :: "nat \<Rightarrow> char" where
  "digit d = ''0123456789'' ! d"

text \<open>The verb \<open>%d\<close> of \<open>fmt\<close> on a non-negative integer.\<close>

fun show_nat :: "nat \<Rightarrow> string" where
  "show_nat n = (if n < 10 then [digit n] else show_nat (n div 10) @ [digit (n mod 10)])"

declare show_nat.simps [simp del]

text \<open>
  The verb \<open>%.2f\<close> applied to \<open>Duration.Seconds()\<close>, for a duration given in nanoseconds:
  the seconds rounded to the nearest hundredth. (\<open>fmt\<close> rounds the binary floating-point
  value; the decimal rounding written here is the same text except possibly at an exact
  tie.)
\<close>

definition seconds2 :: "nat \<Rightarrow> string" where
  "seconds2 d = (let cs = (d + 5000000) div 10000000
                 in show_nat (cs div 100) @ ''.'' @ [digit (cs mod 100 div 10), digit (cs mod 10)])"

text \<open>\<open>strings.Split(s, "\n")\<close>: always at least one piece.\<close>

fun split_nl :: "string \<Rightarrow> string list" where
  "split_nl [] = [[]]"
| "split_nl (c # cs) =
     (if c = CHR 0x0A then [] # split_nl cs
      else (case split_nl cs of [] \<Rightarrow> [[c]] | l # ls \<Rightarrow> (c # l) # ls))"

text \<open>\<open>file[strings.LastIndex(file, sep)+1:]\<close> for a one-byte separator that occurs in \<open>file\<close>.\<close>

definition after_last :: "char \<Rightarrow> string \<Rightarrow> string" where
  "after_last c s = rev (takeWhile (\<lambda>x. x \<noteq> c) (rev s))"

text \<open>
  The call site that \<open>runtime.Caller(3)\<close> reports for a logging call: the file and the
  line, or \<open>None\<close> when the runtime cannot tell (\<open>ok\<close> is false).
\<close>

type_synonym site = "(string \<times> nat) option"

fun indent_lines :: "string list \<Rightarrow> string" where
  "indent_lines [] = []"
| "indent_lines [l] = l"
| "indent_lines (l # ls) = l @ nl @ tab @ tab @ indent_lines ls"

definition decorate :: "site \<Rightarrow> string \<Rightarrow> string" where
  "decorate site s =
     (let (file, line) =
            (case site of
               Some (f, l) \<Rightarrow>
                 (if CHR ''/'' \<in> set f then after_last (CHR ''/'') f
                  else if CHR 0x5C \<in> set f then after_last (CHR 0x5C) f
                  else f, l)
             | None \<Rightarrow> (''???'', 1));
          lines = split_nl s;
          lines' = (if 1 < length lines \<and> last lines = [] then butlast lines else lines)
      in tab @ file @ '':'' @ show_nat line @ '': '' @ indent_lines lines' @ nl)"

subsection \<open>The context\<close>

text \<open>
  \<open>common\<close> and \<open>T\<close>. The mutex is left out: every method holds it for the whole of its
  body. The field \<open>output\<close> is \<open>output_buf\<close> here. The channel \<open>signal\<close> is
  represented by its identity, a number that is fresh
  for every \<open>T\<close>; \<open>self\<close> is the \<open>T\<close> itself and \<open>startParallel\<close> is the one
  channel of the sweep degree, so neither is a field here. Times are nanoseconds.
\<close>

record common =
  output_buf :: string
  failed :: bool
  skipped :: bool
  finished :: bool
  start :: nat
  duration :: nat
  signal :: nat

record T = common +
  name :: string

definition Fail :: "T \<Rightarrow> T" where
  "Fail c = c\<lparr>failed := True\<rparr>"

definition Failed :: "T \<Rightarrow> bool" where
  "Failed c = failed c"

definition skip :: "T \<Rightarrow> T" where
  "skip c = c\<lparr>skipped := True\<rparr>"

definition Skipped :: "T \<Rightarrow> bool" where
  "Skipped c = skipped c"

definition log :: "site \<Rightarrow> string \<Rightarrow> T \<Rightarrow> T" where
  "log site s c = c\<lparr>output_buf := output_buf c @ decorate site s\<rparr>"

text \<open>
  \<open>FailNow\<close> and \<open>SkipNow\<close> up to their last statement, \<open>runtime.Goexit()\<close>, which is
  the \<open>Goexit\<close> halt of \<open>run_body\<close> below.
\<close>

definition FailNow :: "T \<Rightarrow> T" where
  "FailNow c = (Fail c)\<lparr>finished := True\<rparr>"

definition SkipNow :: "T \<Rightarrow> T" where
  "SkipNow c = (skip c)\<lparr>finished := True\<rparr>"

subsection \<open>Task functions\<close>

text \<open>
  What a task function, or a function it defers, can do without ending the task:
  write a line to standard output, spend time, and call the methods of \<open>T\<close> that return.
  The logging methods are taken at one string argument; \<open>fmt.Sprintln\<close> of it is the
  string followed by a newline, \<open>fmt.Sprintf\<close> of a format without verbs is the string.
\<close>

datatype basic =
    Println string
  | Work nat
  | CallLog site string
  | CallLogf site string
  | CallFail
  | CallError site string
  | CallErrorf site string

text \<open>
  The calls that end or suspend the task function, and \<open>defer\<close>. A deferred function
  is a sequence of \<open>basic\<close> steps: it neither recovers a panic nor ends the goroutine.
\<close>

datatype action =
    Basic basic
  | Defer "basic list"
  | CallFailNow
  | CallFatal site string
  | CallFatalf site string
  | CallSkipNow
  | CallSkip site string
  | CallSkipf site string
  | CallParallel
  | Panic string
  | Goexit

text \<open>
  What a goroutine does to the world outside its context: it writes to standard output,
  and time passes while it works.
\<close>

datatype effect = Out string | Elapse nat

text \<open>
  A task goroutine inside the task function: its context, the functions it has deferred
  (the last one first), and its effects since its last exchange with the main goroutine.
\<close>

record frame =
  ctx :: T
  defers :: "basic list list"
  effects :: "effect list"

definition on_ctx :: "(T \<Rightarrow> T) \<Rightarrow> frame \<Rightarrow> frame" where
  "on_ctx f g = g\<lparr>ctx := f (ctx g)\<rparr>"

definition effect :: "effect \<Rightarrow> frame \<Rightarrow> frame" where
  "effect e g = g\<lparr>effects := effects g @ [e]\<rparr>"

fun do_basic :: "basic \<Rightarrow> frame \<Rightarrow> frame" where
  "do_basic (Println s) g = effect (Out (s @ nl)) g"
| "do_basic (Work n) g = effect (Elapse n) g"
| "do_basic (CallLog site s) g = on_ctx (log site (s @ nl)) g"
| "do_basic (CallLogf site s) g = on_ctx (log site s) g"
| "do_basic CallFail g = on_ctx Fail g"
| "do_basic (CallError site s) g = on_ctx Fail (on_ctx (log site (s @ nl)) g)"
| "do_basic (CallErrorf site s) g = on_ctx Fail (on_ctx (log site s) g)"

fun do_basics :: "basic list \<Rightarrow> frame \<Rightarrow> frame" where
  "do_basics [] g = g"
| "do_basics (b # bs) g = do_basics bs (do_basic b g)"

text \<open>The deferred functions of the task function run, the last registered first.\<close>

fun unwind_defers :: "basic list list \<Rightarrow> frame \<Rightarrow> frame" where
  "unwind_defers [] g = g"
| "unwind_defers (d # ds) g = unwind_defers ds (do_basics d g)"

definition unwind :: "frame \<Rightarrow> frame" where
  "unwind g = unwind_defers (defers g) (g\<lparr>defers := []\<rparr>)"

text \<open>
  How a stretch of the task function stops: it returns, the goroutine exits through
  \<open>runtime.Goexit\<close>, it panics, or it reaches \<open>t.Parallel()\<close> with the rest of its
  body still to run.
\<close>

datatype halt = Return | GoexitH | PanicH string | ParallelH "action list"

fun run_body :: "action list \<Rightarrow> frame \<Rightarrow> halt \<times> frame" where
  "run_body [] g = (Return, g)"
| "run_body (Basic b # as) g = run_body as (do_basic b g)"
| "run_body (Defer d # as) g = run_body as (g\<lparr>defers := d # defers g\<rparr>)"
| "run_body (CallFailNow # as) g = (GoexitH, on_ctx FailNow g)"
| "run_body (CallFatal site s # as) g = (GoexitH, on_ctx FailNow (on_ctx (log site (s @ nl)) g))"
| "run_body (CallFatalf site s # as) g = (GoexitH, on_ctx FailNow (on_ctx (log site s) g))"
| "run_body (CallSkipNow # as) g = (GoexitH, on_ctx SkipNow g)"
| "run_body (CallSkip site s # as) g = (GoexitH, on_ctx SkipNow (on_ctx (log site (s @ nl)) g))"
| "run_body (CallSkipf site s # as) g = (GoexitH, on_ctx SkipNow (on_ctx (log site s) g))"
| "run_body (CallParallel # as) g = (ParallelH as, g)"
| "run_body (Panic v # as) g = (PanicH v, g)"
| "run_body (Goexit # as) g = (GoexitH, g)"

subsection \<open>The process\<close>

text \<open>
  What the process does that can be seen from outside or that the claims count: its
  writes to the two standard streams, the calls of \<open>runtime.GOMAXPROCS\<close>, the
  \<open>go tRunner\<close> statements (with the \<open>signal\<close> and the name of the context), the sends on a context's \<open>signal\<close> (\<open>False\<close> for the nil
  marker of \<open>Parallel\<close>, \<open>True\<close> for the context itself), a receive from
  \<open>startParallel\<close> by the task of that context, a receive from \<open>collector\<close> by the
  main goroutine, and the calls of \<open>report\<close> (with what \<open>t.Failed()\<close> answers there).
\<close>

datatype event =
    Stdout string
  | Stderr string
  | GOMAXPROCS nat
  | Go nat string
  | Send nat bool
  | Admitted nat
  | Collected nat
  | Report nat bool

text \<open>
  The clock, the alarm (\<open>timer\<close>: the instant at which it fires while it is armed) and
  the events so far, oldest first.
\<close>

record world =
  now :: nat
  timer :: "nat option"
  trace :: "event list"

definition emit :: "event \<Rightarrow> world \<Rightarrow> world" where
  "emit e w = w\<lparr>trace := trace w @ [e]\<rparr>"

text \<open>
  The effects of a goroutine reach the world one by one. When the clock passes the
  instant of an armed alarm, the function given to \<open>time.AfterFunc\<close> runs and panics
  in its own goroutine: the process dies there, and the remaining effects never happen.
  The result is \<open>True\<close> in that case.
\<close>

fun apply_effects :: "effect list \<Rightarrow> world \<Rightarrow> bool \<times> world" where
  "apply_effects [] w = (False, w)"
| "apply_effects (Out s # es) w = apply_effects es (emit (Stdout s) w)"
| "apply_effects (Elapse n # es) w =
     (case timer w of
        None \<Rightarrow> apply_effects es (w\<lparr>now := now w + n\<rparr>)
      | Some d \<Rightarrow> if d \<le> now w + n then (True, w\<lparr>now := max d (now w)\<rparr>)
                  else apply_effects es (w\<lparr>now := now w + n\<rparr>))"

text \<open>The flags of the package, after \<open>flag.Parse()\<close> and \<open>parseCpuList()\<close>, and the two
  library functions whose results the runtime prints or branches on:
  \<open>regexp.Compile\<close> (a compiled expression is represented by \<open>MatchString\<close> on it) and
  \<open>Duration.String\<close>. \<open>parseCpuList\<close> leaves \<open>cpuList\<close> non-empty, with positive entries.\<close>

type_synonym regexp = "string \<Rightarrow> bool"

record config =
  chatty :: bool
  match :: string
  timeout :: int
  cpuList :: "nat list"
  parallel :: int
  Compile :: "string \<Rightarrow> string + regexp"
  Duration_String :: "int \<Rightarrow> string"

subsection \<open>report\<close>

definition report_line :: "string \<Rightarrow> T \<Rightarrow> string" where
  "report_line verdict t =
     ''--- '' @ verdict @ '': '' @ name t @ '' '' @
     (''('' @ seconds2 (duration t) @ '' seconds)'') @ nl @ output_buf t"

definition report :: "config \<Rightarrow> T \<Rightarrow> world \<Rightarrow> world" where
  "report cfg t w =
     (let w1 = emit (Report (signal t) (Failed t)) w in
      if Failed t then emit (Stdout (report_line ''FAIL'' t)) w1
      else if chatty cfg then
        (if Skipped t then emit (Stdout (report_line ''SKIP'' t)) w1
         else emit (Stdout (report_line ''PASS'' t)) w1)
      else w1)"

subsection \<open>tRunner and Parallel\<close>

text \<open>
  A task goroutine that waits in \<open>t.Parallel()\<close> on \<open>startParallel\<close>, with the rest
  of its task function.
\<close>

record thread =
  fr :: frame
  rest :: "action list"

text \<open>
  How a task goroutine gets on from the main goroutine's point of view: it sends the nil
  marker and waits (\<open>Parked\<close>), it sends itself (\<open>Done\<close>), its deferred function
  panics again (\<open>Fault\<close>), or the alarm fires while it runs (\<open>Expired\<close>).
\<close>

datatype ending = Parked thread | Done T | Fault string T | Expired

definition timed_out :: "config \<Rightarrow> string" where
  "timed_out cfg = ''task timed out after '' @ Duration_String cfg (timeout cfg)"

text \<open>
  The function deferred by \<open>tRunner\<close>. \<open>recovered\<close> is what \<open>recover()\<close> returns:
  the value of the panic, or nil.
\<close>

definition no_terminal :: string where
  "no_terminal = ''task executed panic(nil) or runtime.Goexit''"

definition tRunner_deferred :: "config \<Rightarrow> string option \<Rightarrow> T \<Rightarrow> world \<Rightarrow> ending \<times> world" where
  "tRunner_deferred cfg recovered t w =
     (let t1 = t\<lparr>duration := now w - start t\<rparr>;
          err = (if \<not> finished t1 \<and> recovered = None then Some no_terminal else recovered)
      in case err of
           Some e \<Rightarrow> (Fault e (Fail t1), report cfg (Fail t1) w)
         | None \<Rightarrow> (Done t1, emit (Send (signal t1) True) w))"

text \<open>
  A task goroutine from a point of its body up to its next exchange with the main
  goroutine. When the task function returns, its deferred functions run and then
  \<open>tRunner\<close> sets \<open>finished\<close>; on \<open>Goexit\<close> and on a panic the deferred functions of
  the task function run, and then the one of \<open>tRunner\<close>.
\<close>

definition run_thread :: "config \<Rightarrow> action list \<Rightarrow> frame \<Rightarrow> world \<Rightarrow> ending \<times> world" where
  "run_thread cfg as g w =
     (case run_body as g of
        (ParallelH as', g1) \<Rightarrow>
          (case apply_effects (effects g1) w of
             (True, w1) \<Rightarrow> (Expired, w1)
           | (False, w1) \<Rightarrow>
               (Parked \<lparr>fr = g1\<lparr>effects := []\<rparr>, rest = as'\<rparr>, emit (Send (signal (ctx g1)) False) w1))
      | (h, g1) \<Rightarrow>
          (let g2 = unwind g1;
               t = (if h = Return then (ctx g2)\<lparr>finished := True\<rparr> else ctx g2)
           in case apply_effects (effects g2) w of
                (True, w1) \<Rightarrow> (Expired, w1)
              | (False, w1) \<Rightarrow>
                  tRunner_deferred cfg (case h of PanicH v \<Rightarrow> Some v | _ \<Rightarrow> None) t w1))"

record InternalTask =
  Name :: string
  F :: "action list"

definition tRunner :: "config \<Rightarrow> T \<Rightarrow> InternalTask \<Rightarrow> world \<Rightarrow> ending \<times> world" where
  "tRunner cfg t task w =
     run_thread cfg (F task) \<lparr>ctx = t\<lparr>start := now w\<rparr>, defers = [], effects = []\<rparr> w"

subsection \<open>matchString\<close>

text \<open>
  The function that the generated \<open>main\<close> passes to \<open>Main\<close>. Its two package
  variables \<open>matchPat\<close> and \<open>matchRe\<close> are the state.
\<close>

definition matchString ::
  "(string \<Rightarrow> string + regexp) \<Rightarrow> string \<Rightarrow> string \<Rightarrow> string \<times> regexp option
     \<Rightarrow> (string + bool) \<times> (string \<times> regexp option)" where
  "matchString compile pat str st =
     (case st of
        (mPat, Some re) \<Rightarrow>
          if mPat \<noteq> pat then
            (case compile pat of
               Inl err \<Rightarrow> (Inl err, (pat, None))
             | Inr re' \<Rightarrow> (Inr (re' str), (pat, Some re')))
          else (Inr (re str), st)
      | (mPat, None) \<Rightarrow>
          (case compile pat of
             Inl err \<Rightarrow> (Inl err, (pat, None))
           | Inr re' \<Rightarrow> (Inr (re' str), (pat, Some re'))))"

subsection \<open>RunTasks\<close>

text \<open>
  How the process ends other than by returning from \<open>main\<close>: \<open>os.Exit\<close>, a panic that
  nothing recovers, or every goroutine blocked for good. The Go runtime ends the process
  with status 2 in the last two cases.
\<close>

datatype abort = Exit nat | Crash string | Deadlock

fun exit_code :: "abort \<Rightarrow> nat" where
  "exit_code (Exit n) = n"
| "exit_code (Crash v) = 2"
| "exit_code Deadlock = 2"

text \<open>
  The variables of \<open>RunTasks\<close> and the goroutines around it. \<open>parked\<close> are the task
  goroutines that wait on \<open>startParallel\<close>; \<open>admitted\<close> are those that have received
  from it and whose completion the main goroutine has not yet received from
  \<open>collector\<close>. \<open>made\<close> counts the contexts made so far and names the next \<open>signal\<close>.
  \<open>choices\<close> settles what the Go runtime leaves open: which parked goroutine receives
  from \<open>startParallel\<close>, and which admitted task completes next.
\<close>

record sched =
  ok :: bool
  numParallel :: nat
  running :: nat
  parked :: "thread list"
  admitted :: "thread list"
  matchPat :: string
  matchRe :: "regexp option"
  made :: nat
  choices :: "nat list"
  wld :: world

definition pick :: "nat list \<Rightarrow> nat \<Rightarrow> nat \<times> nat list" where
  "pick cs n = (case cs of [] \<Rightarrow> (0, []) | c # cs' \<Rightarrow> (c mod n, cs'))"

definition remove_nth :: "nat \<Rightarrow> 'a list \<Rightarrow> 'a list" where
  "remove_nth i xs = take i xs @ drop (Suc i) xs"

definition nil_dereference :: string where
  "nil_dereference = ''runtime error: invalid memory address or nil pointer dereference''"

text \<open>
  The main goroutine blocks and no goroutine will ever wake it. With an armed alarm the
  process lives until the alarm fires; without one the runtime reports the deadlock.
\<close>

definition blocked :: "config \<Rightarrow> world \<Rightarrow> abort \<times> world" where
  "blocked cfg w =
     (case timer w of
        None \<Rightarrow> (Deadlock, w)
      | Some d \<Rightarrow> (Crash (timed_out cfg), w\<lparr>now := max d (now w)\<rparr>))"

text \<open>
  The context that the loop over \<open>tasks\<close> makes for an entry, in the round for
  \<open>procs\<close>, when \<open>k\<close> contexts have been made before.
\<close>

definition newT :: "nat \<Rightarrow> InternalTask \<Rightarrow> nat \<Rightarrow> T" where
  "newT procs task k =
     (let taskName = (if procs \<noteq> 1 then Name task @ ''-'' @ show_nat procs else Name task)
      in \<lparr>output_buf = [], failed = False, skipped = False, finished = False,
          start = 0, duration = 0, signal = k, name = taskName\<rparr>)"

text \<open>
  The body of the loop over \<open>tasks\<close> for an entry that the pattern selects: from
  \<open>taskName := tasks[i].Name\<close> to the end of the body.
\<close>

definition RunTasks_launch :: "config \<Rightarrow> nat \<Rightarrow> InternalTask \<Rightarrow> sched \<Rightarrow> (abort \<times> world) + sched" where
  "RunTasks_launch cfg procs task s =
     (let t = newT procs task (made s);
          w1 = (if chatty cfg then emit (Stdout (''=== RUN '' @ name t @ nl)) (wld s) else wld s);
          s1 = s\<lparr>made := made s + 1\<rparr>
      in case tRunner cfg t task (emit (Go (signal t) (name t)) w1) of
           (Expired, w2) \<Rightarrow> Inl (Crash (timed_out cfg), w2)
         | (Fault e t', w2) \<Rightarrow> Inl (Crash e, w2)
         | (Parked th, w2) \<Rightarrow>
             Inr (s1\<lparr>parked := parked s @ [th], numParallel := numParallel s + 1, wld := w2\<rparr>)
         | (Done out, w2) \<Rightarrow>
             Inr (s1\<lparr>ok := (ok s \<and> \<not> Failed out), wld := report cfg out w2\<rparr>))"

text \<open>The body of the loop over \<open>tasks\<close>, for one entry of the registry.\<close>

definition RunTasks_entry :: "config \<Rightarrow> nat \<Rightarrow> InternalTask \<Rightarrow> sched \<Rightarrow> (abort \<times> world) + sched" where
  "RunTasks_entry cfg procs task s =
     (case matchString (Compile cfg) (match cfg) (Name task) (matchPat s, matchRe s) of
        (Inl err, st) \<Rightarrow>
          Inl (Exit 1, emit (Stderr (''tasking: invalid regexp for -task.run: '' @ err @ nl)) (wld s))
      | (Inr matched, (mPat, mRe)) \<Rightarrow>
          (let s1 = s\<lparr>matchPat := mPat, matchRe := mRe\<rparr> in
           if \<not> matched then Inr s1 else RunTasks_launch cfg procs task s1))"

fun RunTasks_serial :: "config \<Rightarrow> nat \<Rightarrow> InternalTask list \<Rightarrow> sched \<Rightarrow> (abort \<times> world) + sched" where
  "RunTasks_serial cfg procs [] s = Inr s"
| "RunTasks_serial cfg procs (task # tasks) s =
     (case RunTasks_entry cfg procs task s of
        Inl a \<Rightarrow> Inl a
      | Inr s' \<Rightarrow> RunTasks_serial cfg procs tasks s')"

text \<open>
  \<open>startParallel <- true\<close>: one of the parked goroutines receives, and sets its start
  time anew.
\<close>

definition admit :: "sched \<Rightarrow> sched" where
  "admit s =
     (let (i, cs) = pick (choices s) (length (parked s));
          th = parked s ! i
      in s\<lparr>choices := cs,
           parked := remove_nth i (parked s),
           admitted := admitted s @ [th\<lparr>fr := on_ctx (\<lambda>t. t\<lparr>start := now (wld s)\<rparr>) (fr th)\<rparr>],
           running := running s + 1,
           numParallel := numParallel s - 1,
           wld := emit (Admitted (signal (ctx (fr th)))) (wld s)\<rparr>)"

text \<open>
  \<open>t := (<-collector).(*T)\<close> and the three statements after it. The admitted task
  that completes next runs the rest of its body here. If it calls \<open>Parallel\<close> again, the
  nil marker is what its forwarding goroutine passes to \<open>collector\<close>, and \<open>t.report()\<close>
  on it dereferences nil.
\<close>

definition collect :: "config \<Rightarrow> sched \<Rightarrow> (abort \<times> world) + sched" where
  "collect cfg s =
     (let (i, cs) = pick (choices s) (length (admitted s));
          th = admitted s ! i
      in case run_thread cfg (rest th) (fr th) (wld s) of
           (Expired, w1) \<Rightarrow> Inl (Crash (timed_out cfg), w1)
         | (Fault e t', w1) \<Rightarrow> Inl (Crash e, w1)
         | (Parked th', w1) \<Rightarrow> Inl (Crash nil_dereference, emit (Collected (signal (ctx (fr th)))) w1)
         | (Done t, w1) \<Rightarrow>
             Inr (s\<lparr>choices := cs,
                    admitted := remove_nth i (admitted s),
                    ok := (ok s \<and> \<not> Failed t),
                    running := running s - 1,
                    wld := report cfg t (emit (Collected (signal t)) w1)\<rparr>))"

text \<open>The conditions of the loop \<open>for numParallel+running > 0\<close> and of the \<open>if\<close> in it.\<close>

definition pending :: "sched \<Rightarrow> bool" where
  "pending s = (0 < numParallel s + running s)"

definition may_start :: "config \<Rightarrow> sched \<Rightarrow> bool" where
  "may_start cfg s = (int (running s) < parallel cfg \<and> 0 < numParallel s)"

text \<open>The loop \<open>for numParallel+running > 0\<close>.\<close>

function RunTasks_drain :: "config \<Rightarrow> sched \<Rightarrow> (abort \<times> world) + sched" where
  "RunTasks_drain cfg s =
     (if pending s then
        (if may_start cfg s then
           (if parked s = [] then Inl (blocked cfg (wld s))
            else RunTasks_drain cfg (admit s))
         else
           (if admitted s = [] then Inl (blocked cfg (wld s))
            else (case collect cfg s of
                    Inl a \<Rightarrow> Inl a
                  | Inr s' \<Rightarrow> RunTasks_drain cfg s')))
      else Inr s)"
  by pat_completeness auto
termination
proof (relation "measure (\<lambda>(cfg, s). 2 * length (parked s) + length (admitted s))")
  show "wf (measure (\<lambda>(cfg, s). 2 * length (parked s) + length (admitted s)))"
    by simp
next
  fix cfg :: config and s :: sched
  assume ne: "parked s \<noteq> []"
  obtain i cs where p: "pick (choices s) (length (parked s)) = (i, cs)"
    by (cases "pick (choices s) (length (parked s))")
  from ne have "i < length (parked s)"
    using p by (auto simp: pick_def split: list.splits)
  then have "Suc (length (parked (admit s))) = length (parked s)"
    and "length (admitted (admit s)) = Suc (length (admitted s))"
    using p by (auto simp: admit_def remove_nth_def Let_def)
  then show "((cfg, admit s), (cfg, s)) \<in> measure (\<lambda>(cfg, s). 2 * length (parked s) + length (admitted s))"
    by simp
next
  fix cfg :: config and s s' :: sched
  assume ne: "admitted s \<noteq> []" and c: "collect cfg s = Inr s'"
  obtain i cs where p: "pick (choices s) (length (admitted s)) = (i, cs)"
    by (cases "pick (choices s) (length (admitted s))")
  from ne have "i < length (admitted s)"
    using p by (auto simp: pick_def split: list.splits)
  then have "Suc (length (admitted s')) = length (admitted s)" and "parked s' = parked s"
    using p c by (auto simp: collect_def remove_nth_def Let_def split: prod.splits ending.splits)
  then show "((cfg, s'), (cfg, s)) \<in> measure (\<lambda>(cfg, s). 2 * length (parked s) + length (admitted s))"
    by simp
qed

declare RunTasks_drain.simps [simp del]

text \<open>
  One round of the loop over \<open>cpuList\<close>: a new \<open>collector\<close> and a new
  \<open>startParallel\<close>, on which nothing waits yet.
\<close>

definition RunTasks_procs :: "config \<Rightarrow> InternalTask list \<Rightarrow> nat \<Rightarrow> sched \<Rightarrow> (abort \<times> world) + sched" where
  "RunTasks_procs cfg tasks procs s =
     (case RunTasks_serial cfg procs tasks
             (s\<lparr>numParallel := 0, parked := [], admitted := [], wld := emit (GOMAXPROCS procs) (wld s)\<rparr>) of
        Inl a \<Rightarrow> Inl a
      | Inr s1 \<Rightarrow> RunTasks_drain cfg (s1\<lparr>running := 0\<rparr>))"

fun RunTasks_sweep :: "config \<Rightarrow> InternalTask list \<Rightarrow> nat list \<Rightarrow> sched \<Rightarrow> (abort \<times> world) + sched" where
  "RunTasks_sweep cfg tasks [] s = Inr s"
| "RunTasks_sweep cfg tasks (procs # ps) s =
     (case RunTasks_procs cfg tasks procs s of
        Inl a \<Rightarrow> Inl a
      | Inr s' \<Rightarrow> RunTasks_sweep cfg tasks ps s')"

definition RunTasks :: "config \<Rightarrow> InternalTask list \<Rightarrow> sched \<Rightarrow> (abort \<times> world) + sched" where
  "RunTasks cfg tasks s =
     (if length tasks = 0
      then Inr (s\<lparr>ok := True, wld := emit (Stderr (''tasking: warning: no tasks to run'' @ nl)) (wld s)\<rparr>)
      else RunTasks_sweep cfg tasks (cpuList cfg) (s\<lparr>ok := True\<rparr>))"

subsection \<open>The alarm and Main\<close>

definition startAlarm :: "config \<Rightarrow> world \<Rightarrow> world" where
  "startAlarm cfg w = (if 0 < timeout cfg then w\<lparr>timer := Some (now w + nat (timeout cfg))\<rparr> else w)"

definition stopAlarm :: "config \<Rightarrow> world \<Rightarrow> world" where
  "stopAlarm cfg w = (if 0 < timeout cfg then w\<lparr>timer := None\<rparr> else w)"

text \<open>The process at its start: no alarm, nothing written, no context made.\<close>

definition boot :: "nat list \<Rightarrow> sched" where
  "boot cs = \<lparr>ok = True, numParallel = 0, running = 0, parked = [], admitted = [],
              matchPat = [], matchRe = None, made = 0, choices = cs,
              wld = \<lparr>now = 0, timer = None, trace = []\<rparr>\<rparr>"

text \<open>
  \<open>Main\<close>, from \<open>startAlarm()\<close> on. Returning from it ends the process with status 0,
  which is \<open>Exit 0\<close> here. When \<open>RunTasks\<close> does not return, nothing after it runs.
\<close>

definition Main :: "config \<Rightarrow> InternalTask list \<Rightarrow> nat list \<Rightarrow> abort \<times> world" where
  "Main cfg tasks cs =
     (let s0 = boot cs in
      case RunTasks cfg tasks (s0\<lparr>wld := startAlarm cfg (wld s0)\<rparr>) of
        Inl a \<Rightarrow> a
      | Inr s \<Rightarrow>
          (let w = stopAlarm cfg (wld s) in
           if \<not> ok s then (Exit 1, emit (Stdout (''FAIL'' @ nl)) w)
           else (Exit 0, emit (Stdout (''PASS'' @ nl)) w)))"

subsection \<open>Reading a trace\<close>

fun stdout :: "event list \<Rightarrow> string" where
  "stdout [] = []"
| "stdout (Stdout s # es) = s @ stdout es"
| "stdout (e # es) = stdout es"

fun stderr :: "event list \<Rightarrow> string" where
  "stderr [] = []"
| "stderr (Stderr s # es) = s @ stderr es"
| "stderr (e # es) = stderr es"

text \<open>What a list of effects leaves in the trace when the alarm does not fire.\<close>

fun shown :: "effect list \<Rightarrow> event list" where
  "shown [] = []"
| "shown (Out s # es) = Stdout s # shown es"
| "shown (Elapse n # es) = shown es"

text \<open>Two contexts are the same \<open>T\<close>: the same channel and the same name.\<close>

definition same_id :: "T \<Rightarrow> T \<Rightarrow> bool" where
  "same_id t t' = (signal t' = signal t \<and> name t' = name t)"

text \<open>
  The value of \<open>t\<close> when the function deferred by \<open>tRunner\<close> starts, for a task
  function that stopped with \<open>h\<close> in the frame \<open>g\<close>.
\<close>

definition landed :: "halt \<Rightarrow> frame \<Rightarrow> T" where
  "landed h g = (if h = Return then (ctx (unwind g))\<lparr>finished := True\<rparr> else ctx (unwind g))"

text \<open>The names that the pattern of the configuration selects.\<close>

definition selected :: "config \<Rightarrow> string \<Rightarrow> bool" where
  "selected cfg n = (case Compile cfg (match cfg) of Inl err \<Rightarrow> False | Inr re \<Rightarrow> re n)"

text \<open>The expression that \<open>matchString\<close> has cached is the one of the pattern it has cached.\<close>

definition consistent :: "config \<Rightarrow> sched \<Rightarrow> bool" where
  "consistent cfg s = (case matchRe s of None \<Rightarrow> True | Some re \<Rightarrow> Compile cfg (matchPat s) = Inr re)"

text \<open>The two counters of \<open>RunTasks\<close> count the goroutines they are meant to count.\<close>

definition tidy :: "sched \<Rightarrow> bool" where
  "tidy s = (numParallel s = length (parked s) \<and> running s = length (admitted s))"

definition quiet :: "sched \<Rightarrow> bool" where
  "quiet s = (parked s = [] \<and> admitted s = [] \<and> numParallel s = 0 \<and> running s = 0)"

text \<open>The world when the goroutine of a selected entry starts: after the \<open>=== RUN\<close> line of
  verbose mode and the \<open>go\<close> statement.\<close>

definition launch_world :: "config \<Rightarrow> nat \<Rightarrow> InternalTask \<Rightarrow> sched \<Rightarrow> world" where
  "launch_world cfg procs task s =
     emit (Go (made s) (name (newT procs task (made s))))
       (if chatty cfg then emit (Stdout (''=== RUN '' @ name (newT procs task (made s)) @ nl)) (wld s) else wld s)"

text \<open>What \<open>report\<close> prints for a context.\<close>

definition report_out :: "config \<Rightarrow> T \<Rightarrow> event list" where
  "report_out cfg t =
     (if failed t then [Stdout (report_line ''FAIL'' t)]
      else if chatty cfg then
        (if skipped t then [Stdout (report_line ''SKIP'' t)] else [Stdout (report_line ''PASS'' t)])
      else [])"

text \<open>The names of the contexts for which a task goroutine was started, in order.\<close>

fun launched :: "event list \<Rightarrow> string list" where
  "launched [] = []"
| "launched (Go i n # es) = n # launched es"
| "launched (e # es) = launched es"

text \<open>The events that a task goroutine leaves in the trace.\<close>

fun task_event :: "event \<Rightarrow> bool" where
  "task_event (Stdout s) = True"
| "task_event (Send i b) = True"
| "task_event (Report i f) = True"
| "task_event e = False"

text \<open>The name of a task in the round for \<open>procs\<close>: suffixed unless \<open>procs\<close> is 1.\<close>

definition reported_name :: "nat \<Rightarrow> InternalTask \<Rightarrow> string" where
  "reported_name procs task = (if procs = 1 then Name task else Name task @ ''-'' @ show_nat procs)"

text \<open>The frame in which \<open>tRunner\<close> starts the task function of a selected entry.\<close>

definition first_frame :: "config \<Rightarrow> nat \<Rightarrow> InternalTask \<Rightarrow> sched \<Rightarrow> frame" where
  "first_frame cfg procs task s =
     \<lparr>ctx = (newT procs task (made s))\<lparr>start := now (launch_world cfg procs task s)\<rparr>,
      defers = [], effects = []\<rparr>"

text \<open>An action after which the task function goes on with its next statement.\<close>

fun straight :: "action \<Rightarrow> bool" where
  "straight (Basic b) = True"
| "straight (Defer d) = True"
| "straight a = False"


subsection \<open>Examples\<close>

text \<open>
  Stand-ins for the two library functions, for the examples: a pattern matches the names
  that contain it, the pattern \<open>(\<close> does not compile, and a duration is printed in
  nanoseconds.
\<close>

fun starts_with :: "string \<Rightarrow> string \<Rightarrow> bool" where
  "starts_with [] s = True"
| "starts_with (p # ps) [] = False"
| "starts_with (p # ps) (c # cs) = (p = c \<and> starts_with ps cs)"

fun contains :: "string \<Rightarrow> string \<Rightarrow> bool" where
  "contains p [] = (p = [])"
| "contains p (c # cs) = (starts_with p (c # cs) \<or> contains p cs)"

definition example_Compile :: "string \<Rightarrow> string + regexp" where
  "example_Compile p =
     (if p = ''('' then Inl ''error parsing regexp: missing closing ): `(`'' else Inr (contains p))"

definition example_config :: config where
  "example_config =
     \<lparr>chatty = False, match = [], timeout = 0, cpuList = [1], parallel = 1,
      Compile = example_Compile, Duration_String = (\<lambda>d. show_nat (nat d) @ ''ns'')\<rparr>"

definition TaskA :: InternalTask where
  "TaskA = \<lparr>Name = ''TaskA'', F = []\<rparr>"



text \<open>The task of the test data: it prints a line and logs one.\<close>

definition TaskHello :: InternalTask where
  "TaskHello =
     \<lparr>Name = ''TaskHello'',
      F = [Basic (Println ''Hello!''),
           Basic (CallLog (Some (''/src/testdata/1_test-gake_task.go'', 14)) ''Testing Hello function'')]\<rparr>"



section \<open>Lemmas\<close>

subsection \<open>Task goroutines\<close>

lemma shown_append: "shown (xs @ ys) = shown xs @ shown ys"
  by (induction xs rule: shown.induct) simp_all

lemma apply_effects_False:
  "apply_effects es w = (False, w1) \<Longrightarrow>
     trace w1 = trace w @ shown es \<and> timer w1 = timer w \<and> now w \<le> now w1"
proof (induction es w rule: apply_effects.induct)
  case (1 w)
  then show ?case by simp
next
  case (2 s es w)
  then show ?case by (simp add: emit_def)
next
  case (3 n es w)
  then show ?case by (auto split: option.splits if_splits)
qed

lemma apply_effects_True:
  "apply_effects es w = (True, w1) \<Longrightarrow>
     (\<exists>es'. trace w1 = trace w @ shown es') \<and> timer w1 = timer w \<and> timer w \<noteq> None"
proof (induction es w rule: apply_effects.induct)
  case (1 w)
  then show ?case by simp
next
  case (2 s es w)
  then obtain es' where tr: "trace w1 = trace (emit (Stdout s) w) @ shown es'"
    and t: "timer w1 = timer (emit (Stdout s) w)" "timer (emit (Stdout s) w) \<noteq> None"
    by auto
  from tr have "trace w1 = trace w @ shown (Out s # es')"
    by (simp add: emit_def)
  then have "\<exists>es'. trace w1 = trace w @ shown es'" ..
  moreover from t have "timer w1 = timer w" "timer w \<noteq> None"
    by (simp_all add: emit_def)
  ultimately show ?case by simp
next
  case (3 n es w)
  show ?case
  proof (cases "timer w")
    case None
    with 3 show ?thesis by auto
  next
    case (Some d)
    show ?thesis
    proof (cases "d \<le> now w + n")
      case True
      with 3 Some have w1: "w1 = w\<lparr>now := max d (now w)\<rparr>" by simp
      then have "trace w1 = trace w @ shown []" by simp
      then have "\<exists>es'. trace w1 = trace w @ shown es'" ..
      with w1 Some show ?thesis by simp
    next
      case False
      with 3 Some show ?thesis by auto
    qed
  qed
qed

lemma apply_effects_no_timer:
  "timer w = None \<Longrightarrow> fst (apply_effects es w) = False"
  by (induction es w rule: apply_effects.induct) (simp_all add: emit_def)

lemma same_id_refl [simp]: "same_id t t"
  by (simp add: same_id_def)

lemma same_id_trans: "same_id a b \<Longrightarrow> same_id b c \<Longrightarrow> same_id a c"
  by (simp add: same_id_def)

lemma do_basic_same_id: "same_id (ctx g) (ctx (do_basic b g))"
  by (cases b) (simp_all add: on_ctx_def effect_def log_def Fail_def same_id_def)

lemma do_basics_same_id: "same_id (ctx g) (ctx (do_basics bs g))"
proof (induction bs arbitrary: g)
  case Nil
  show ?case by simp
next
  case (Cons b bs)
  from do_basic_same_id Cons.IH show ?case
    using same_id_trans by fastforce
qed

lemma unwind_defers_same_id: "same_id (ctx g) (ctx (unwind_defers ds g))"
proof (induction ds arbitrary: g)
  case Nil
  show ?case by simp
next
  case (Cons d ds)
  from do_basics_same_id Cons.IH show ?case
    using same_id_trans by fastforce
qed

lemma unwind_same_id: "same_id (ctx g) (ctx (unwind g))"
  using unwind_defers_same_id [of "g\<lparr>defers := []\<rparr>" "defers g"] by (simp add: unwind_def)

lemma run_body_same_id: "run_body as g = (h, g') \<Longrightarrow> same_id (ctx g) (ctx g')"
proof (induction as g rule: run_body.induct)
  case (2 b as g)
  then have "same_id (ctx (do_basic b g)) (ctx g')" by simp
  with do_basic_same_id show ?case using same_id_trans by blast
next
  case (3 d as g)
  then show ?case by (simp add: same_id_def)
qed (auto simp: on_ctx_def FailNow_def SkipNow_def Fail_def skip_def log_def same_id_def)

lemma report_keeps: "timer (report cfg t w) = timer w \<and> now (report cfg t w) = now w"
  by (simp add: report_def emit_def Let_def)

lemma run_thread_Parallel:
  "run_body as g = (ParallelH as', g1) \<Longrightarrow>
   run_thread cfg as g w =
     (case apply_effects (effects g1) w of
        (True, w1) \<Rightarrow> (Expired, w1)
      | (False, w1) \<Rightarrow>
          (Parked \<lparr>fr = g1\<lparr>effects := []\<rparr>, rest = as'\<rparr>, emit (Send (signal (ctx g1)) False) w1))"
  by (simp add: run_thread_def)

lemma run_thread_other:
  "run_body as g = (h, g1) \<Longrightarrow> \<forall>as'. h \<noteq> ParallelH as' \<Longrightarrow>
   run_thread cfg as g w =
     (case apply_effects (effects (unwind g1)) w of
        (True, w1) \<Rightarrow> (Expired, w1)
      | (False, w1) \<Rightarrow>
          tRunner_deferred cfg (case h of PanicH v \<Rightarrow> Some v | _ \<Rightarrow> None)
            (if h = Return then (ctx (unwind g1))\<lparr>finished := True\<rparr> else ctx (unwind g1)) w1)"
  by (cases h) (auto simp: run_thread_def Let_def)

lemma tRunner_deferred_Done:
  "tRunner_deferred cfg r t w = (Done t', w') \<Longrightarrow>
     r = None \<and> finished t \<and> t' = t\<lparr>duration := now w - start t\<rparr> \<and> w' = emit (Send (signal t) True) w"
  by (auto simp: tRunner_deferred_def Let_def split: if_splits option.splits)

lemma tRunner_deferred_Fault:
  "tRunner_deferred cfg r t w = (Fault e t', w') \<Longrightarrow>
     (r = Some e \<or> (r = None \<and> \<not> finished t \<and> e = no_terminal)) \<and>
     t' = Fail (t\<lparr>duration := now w - start t\<rparr>) \<and> w' = report cfg t' w"
  by (auto simp: tRunner_deferred_def Let_def split: if_splits option.splits)

lemma tRunner_deferred_not [simp]:
  "tRunner_deferred cfg r t w \<noteq> (Expired, w')" "tRunner_deferred cfg r t w \<noteq> (Parked th, w')"
  by (auto simp: tRunner_deferred_def Let_def split: if_splits option.splits)

lemma run_thread_other':
  "run_body as g = (h, g1) \<Longrightarrow> \<forall>as'. h \<noteq> ParallelH as' \<Longrightarrow>
   run_thread cfg as g w =
     (case apply_effects (effects (unwind g1)) w of
        (True, w1) \<Rightarrow> (Expired, w1)
      | (False, w1) \<Rightarrow>
          tRunner_deferred cfg (case h of PanicH v \<Rightarrow> Some v | _ \<Rightarrow> None) (landed h g1) w1)"
  by (cases h) (auto simp: run_thread_def Let_def landed_def split: prod.splits bool.splits)

lemma run_thread_Done:
  assumes "run_thread cfg as g w = (Done t', w')"
  shows "\<exists>h g1 w1. run_body as g = (h, g1) \<and> (h = Return \<or> h = GoexitH) \<and>
           apply_effects (effects (unwind g1)) w = (False, w1) \<and> finished (landed h g1) \<and>
           t' = (landed h g1)\<lparr>duration := now w1 - start (landed h g1)\<rparr> \<and>
           w' = emit (Send (signal (landed h g1)) True) w1"
proof -
  obtain h g1 where rb: "run_body as g = (h, g1)" by (cases "run_body as g")
  obtain b w1 where ae: "apply_effects (effects (unwind g1)) w = (b, w1)"
    by (cases "apply_effects (effects (unwind g1)) w")
  have np: "\<forall>as'. h \<noteq> ParallelH as'"
  proof (rule ccontr)
    assume "\<not> (\<forall>as'. h \<noteq> ParallelH as')"
    then obtain as' where "h = ParallelH as'" by blast
    with rb assms show False
      by (simp add: run_thread_Parallel split: prod.splits bool.splits)
  qed
  from assms rb np ae have b: "b = False"
    and d: "tRunner_deferred cfg (case h of PanicH v \<Rightarrow> Some v | _ \<Rightarrow> None) (landed h g1) w1 = (Done t', w')"
    by (cases b; simp add: run_thread_other')+
  from tRunner_deferred_Done [OF d] np have "h = Return \<or> h = GoexitH"
    by (cases h) auto
  with tRunner_deferred_Done [OF d] rb ae b show ?thesis by blast
qed

lemma run_thread_Fault:
  assumes "run_thread cfg as g w = (Fault e t', w')"
  shows "\<exists>h g1 w1. run_body as g = (h, g1) \<and>
           (h = PanicH e \<or> (h = GoexitH \<and> \<not> finished (landed h g1) \<and> e = no_terminal)) \<and>
           apply_effects (effects (unwind g1)) w = (False, w1) \<and>
           t' = Fail ((landed h g1)\<lparr>duration := now w1 - start (landed h g1)\<rparr>) \<and>
           w' = report cfg t' w1"
proof -
  obtain h g1 where rb: "run_body as g = (h, g1)" by (cases "run_body as g")
  obtain b w1 where ae: "apply_effects (effects (unwind g1)) w = (b, w1)"
    by (cases "apply_effects (effects (unwind g1)) w")
  have np: "\<forall>as'. h \<noteq> ParallelH as'"
  proof (rule ccontr)
    assume "\<not> (\<forall>as'. h \<noteq> ParallelH as')"
    then obtain as' where "h = ParallelH as'" by blast
    with rb assms show False
      by (simp add: run_thread_Parallel split: prod.splits bool.splits)
  qed
  from assms rb np ae have b: "b = False"
    and d: "tRunner_deferred cfg (case h of PanicH v \<Rightarrow> Some v | _ \<Rightarrow> None) (landed h g1) w1 = (Fault e t', w')"
    by (cases b; simp add: run_thread_other')+
  from tRunner_deferred_Fault [OF d] np
  have "h = PanicH e \<or> (h = GoexitH \<and> \<not> finished (landed h g1) \<and> e = no_terminal)"
    by (cases h) (auto simp: landed_def)
  with tRunner_deferred_Fault [OF d] rb ae b show ?thesis by blast
qed

lemma run_thread_Parked:
  assumes "run_thread cfg as g w = (Parked th, w')"
  shows "\<exists>g1 w1. run_body as g = (ParallelH (rest th), g1) \<and>
           apply_effects (effects g1) w = (False, w1) \<and>
           fr th = g1\<lparr>effects := []\<rparr> \<and>
           w' = emit (Send (signal (ctx g1)) False) w1"
proof -
  obtain h g1 where rb: "run_body as g = (h, g1)" by (cases "run_body as g")
  show ?thesis
  proof (cases "\<exists>as'. h = ParallelH as'")
    case True
    then obtain as' where h: "h = ParallelH as'" by blast
    obtain b w1 where ae: "apply_effects (effects g1) w = (b, w1)"
      by (cases "apply_effects (effects g1) w")
    from assms rb h ae have "b = False" and "th = \<lparr>fr = g1\<lparr>effects := []\<rparr>, rest = as'\<rparr>"
      and "w' = emit (Send (signal (ctx g1)) False) w1"
      by (cases b; simp add: run_thread_Parallel)+
    with rb h ae show ?thesis by simp
  next
    case False
    then have np: "\<forall>as'. h \<noteq> ParallelH as'" by blast
    from assms show ?thesis
      by (simp add: run_thread_other' [OF rb np] split: prod.splits bool.splits)
  qed
qed

lemma run_thread_Expired:
  assumes "run_thread cfg as g w = (Expired, w')"
  shows "(\<exists>es. trace w' = trace w @ shown es) \<and> timer w' = timer w \<and> timer w \<noteq> None"
proof -
  obtain h g1 where rb: "run_body as g = (h, g1)" by (cases "run_body as g")
  show ?thesis
  proof (cases "\<exists>as'. h = ParallelH as'")
    case True
    then obtain as' where h: "h = ParallelH as'" by blast
    obtain b w1 where ae: "apply_effects (effects g1) w = (b, w1)"
      by (cases "apply_effects (effects g1) w")
    from assms rb h ae have "b = True" and "w' = w1"
      by (cases b; simp add: run_thread_Parallel)+
    with ae apply_effects_True show ?thesis by blast
  next
    case False
    then have np: "\<forall>as'. h \<noteq> ParallelH as'" by blast
    obtain b w1 where ae: "apply_effects (effects (unwind g1)) w = (b, w1)"
      by (cases "apply_effects (effects (unwind g1)) w")
    from assms ae have "b = True" and "w' = w1"
      by (cases b; simp add: run_thread_other' [OF rb np])+
    with ae apply_effects_True show ?thesis by blast
  qed
qed

lemma matchString_consistent:
  assumes "consistent cfg s"
  shows "matchString (Compile cfg) (match cfg) n (matchPat s, matchRe s) =
           (case Compile cfg (match cfg) of
              Inl err \<Rightarrow> (Inl err, (match cfg, None))
            | Inr re \<Rightarrow> (Inr (re n), (match cfg, Some re)))"
  using assms
  by (cases "matchRe s"; cases "Compile cfg (match cfg)")
     (auto simp: matchString_def consistent_def)

lemma entry_invalid:
  assumes "consistent cfg s" and "Compile cfg (match cfg) = Inl err"
  shows "RunTasks_entry cfg procs task s =
           Inl (Exit 1, emit (Stderr (''tasking: invalid regexp for -task.run: '' @ err @ nl)) (wld s))"
  using assms by (simp add: RunTasks_entry_def matchString_consistent)

lemma entry_valid:
  assumes "consistent cfg s" and "Compile cfg (match cfg) = Inr re"
  shows "RunTasks_entry cfg procs task s =
           (if selected cfg (Name task)
            then RunTasks_launch cfg procs task (s\<lparr>matchPat := match cfg, matchRe := Some re\<rparr>)
            else Inr (s\<lparr>matchPat := match cfg, matchRe := Some re\<rparr>))"
  using assms by (simp add: RunTasks_entry_def matchString_consistent selected_def)

lemma entry_consistent:
  assumes "consistent cfg s" and "RunTasks_entry cfg procs task s = Inr s'"
  shows "consistent cfg s'"
proof (cases "Compile cfg (match cfg)")
  case (Inl err)
  with assms show ?thesis by (simp add: entry_invalid)
next
  case (Inr re)
  with assms show ?thesis
    by (auto simp: entry_valid RunTasks_launch_def Let_def consistent_def
             split: if_splits prod.splits ending.splits)
qed

lemma newT_signal [simp]: "signal (newT procs task k) = k"
  by (simp add: newT_def Let_def)

lemma launch_unfold:
  "RunTasks_launch cfg procs task s =
     (case tRunner cfg (newT procs task (made s)) task (launch_world cfg procs task s) of
        (Expired, w2) \<Rightarrow> Inl (Crash (timed_out cfg), w2)
      | (Fault e t', w2) \<Rightarrow> Inl (Crash e, w2)
      | (Parked th, w2) \<Rightarrow>
          Inr (s\<lparr>made := made s + 1, parked := parked s @ [th], numParallel := numParallel s + 1, wld := w2\<rparr>)
      | (Done out, w2) \<Rightarrow>
          Inr (s\<lparr>made := made s + 1, ok := (ok s \<and> \<not> Failed out), wld := report cfg out w2\<rparr>))"
  by (auto simp: RunTasks_launch_def launch_world_def Let_def split: prod.splits ending.splits)

lemma launch_Inr:
  assumes "RunTasks_launch cfg procs task s = Inr s'"
  shows "(\<exists>out w2. tRunner cfg (newT procs task (made s)) task (launch_world cfg procs task s) = (Done out, w2) \<and>
            s' = s\<lparr>made := made s + 1, ok := (ok s \<and> \<not> failed out), wld := report cfg out w2\<rparr>)
       \<or> (\<exists>th w2. tRunner cfg (newT procs task (made s)) task (launch_world cfg procs task s) = (Parked th, w2) \<and>
            s' = s\<lparr>made := made s + 1, parked := parked s @ [th], numParallel := numParallel s + 1, wld := w2\<rparr>)"
  using assms
  by (auto simp: launch_unfold Failed_def split: prod.splits ending.splits)


lemma pick_in: "xs \<noteq> [] \<Longrightarrow> fst (pick cs (length xs)) < length xs"
  by (simp add: pick_def split: list.splits)

lemma admit_unfold:
  "admit s =
     s\<lparr>choices := snd (pick (choices s) (length (parked s))),
       parked := remove_nth (fst (pick (choices s) (length (parked s)))) (parked s),
       admitted := admitted s @
         [(parked s ! fst (pick (choices s) (length (parked s))))
            \<lparr>fr := on_ctx (\<lambda>t. t\<lparr>start := now (wld s)\<rparr>) (fr (parked s ! fst (pick (choices s) (length (parked s)))))\<rparr>],
       running := running s + 1,
       numParallel := numParallel s - 1,
       wld := emit (Admitted (signal (ctx (fr (parked s ! fst (pick (choices s) (length (parked s)))))))) (wld s)\<rparr>"
  by (simp add: admit_def Let_def split_beta)

lemma length_remove_nth: "i < length xs \<Longrightarrow> Suc (length (remove_nth i xs)) = length xs"
  by (auto simp: remove_nth_def)

lemma admit_tidy: "tidy s \<Longrightarrow> parked s \<noteq> [] \<Longrightarrow> tidy (admit s)"
  using length_remove_nth [OF pick_in, of "parked s" "choices s"]
  by (cases "parked s") (auto simp: tidy_def admit_unfold)

lemma collect_Inr:
  assumes "collect cfg s = Inr s'" and "pick (choices s) (length (admitted s)) = (i, cs)"
  shows "\<exists>t w1. run_thread cfg (rest (admitted s ! i)) (fr (admitted s ! i)) (wld s) = (Done t, w1) \<and>
           s' = s\<lparr>choices := cs,
                  admitted := remove_nth i (admitted s),
                  ok := (ok s \<and> \<not> failed t),
                  running := running s - 1,
                  wld := report cfg t (emit (Collected (signal t)) w1)\<rparr>"
proof -
  obtain r w1 where rt: "run_thread cfg (rest (admitted s ! i)) (fr (admitted s ! i)) (wld s) = (r, w1)"
    by (cases "run_thread cfg (rest (admitted s ! i)) (fr (admitted s ! i)) (wld s)")
  with assms show ?thesis
    by (cases r) (simp_all add: collect_def Let_def Failed_def)
qed


lemma pick_in': "xs \<noteq> [] \<Longrightarrow> pick cs (length xs) = (i, cs') \<Longrightarrow> i < length xs"
  using pick_in [of xs cs] by simp

lemma collect_tidy:
  assumes "tidy s" "admitted s \<noteq> []" "collect cfg s = Inr s'"
  shows "tidy s'"
proof -
  obtain i cs where p: "pick (choices s) (length (admitted s)) = (i, cs)"
    by (cases "pick (choices s) (length (admitted s))")
  from pick_in' [OF assms(2) p] have "Suc (length (remove_nth i (admitted s))) = length (admitted s)"
    by (rule length_remove_nth)
  with collect_Inr [OF assms(3) p] assms(1) show ?thesis
    by (auto simp: tidy_def)
qed

lemma launch_tidy: "tidy s \<Longrightarrow> RunTasks_launch cfg procs task s = Inr s' \<Longrightarrow> tidy s'"
  by (auto simp: tidy_def dest!: launch_Inr)

lemma entry_tidy:
  assumes "consistent cfg s" "tidy s" "RunTasks_entry cfg procs task s = Inr s'"
  shows "tidy s'"
proof (cases "Compile cfg (match cfg)")
  case (Inl err)
  with assms show ?thesis by (simp add: entry_invalid)
next
  case (Inr re)
  have "tidy (s\<lparr>matchPat := match cfg, matchRe := Some re\<rparr>)"
    using assms(2) by (simp add: tidy_def)
  with assms Inr show ?thesis
    by (auto simp: entry_valid split: if_splits dest: launch_tidy)
qed

lemma drain_done: "\<not> pending s \<Longrightarrow> RunTasks_drain cfg s = Inr s"
  by (subst RunTasks_drain.simps) simp

lemma drain_admit:
  "pending s \<Longrightarrow> may_start cfg s \<Longrightarrow>
   RunTasks_drain cfg s = (if parked s = [] then Inl (blocked cfg (wld s)) else RunTasks_drain cfg (admit s))"
  by (subst RunTasks_drain.simps) simp

lemma drain_collect:
  "pending s \<Longrightarrow> \<not> may_start cfg s \<Longrightarrow>
   RunTasks_drain cfg s =
     (if admitted s = [] then Inl (blocked cfg (wld s))
      else (case collect cfg s of Inl a \<Rightarrow> Inl a | Inr s' \<Rightarrow> RunTasks_drain cfg s'))"
  by (subst RunTasks_drain.simps) simp

lemma drain_rule:
  assumes "P s" and "tidy s"
    and "\<And>s. P s \<Longrightarrow> tidy s \<Longrightarrow> parked s \<noteq> [] \<Longrightarrow> may_start cfg s \<Longrightarrow> P (admit s)"
    and "\<And>s s'. P s \<Longrightarrow> tidy s \<Longrightarrow> admitted s \<noteq> [] \<Longrightarrow> collect cfg s = Inr s' \<Longrightarrow> P s'"
    and "\<And>s a. P s \<Longrightarrow> tidy s \<Longrightarrow> admitted s \<noteq> [] \<Longrightarrow> collect cfg s = Inl a \<Longrightarrow> Q a"
    and "\<And>s. P s \<Longrightarrow> tidy s \<Longrightarrow> pending s \<Longrightarrow>
           (may_start cfg s \<and> parked s = []) \<or> (\<not> may_start cfg s \<and> admitted s = []) \<Longrightarrow>
           Q (blocked cfg (wld s))"
  shows "case RunTasks_drain cfg s of Inl a \<Rightarrow> Q a | Inr s' \<Rightarrow> P s' \<and> quiet s'"
  using assms
proof (induction cfg s rule: RunTasks_drain.induct)
  case (1 cfg s)
  note P = \<open>P s\<close> and t = \<open>tidy s\<close>
  note A = 1(5) and C = 1(6) and CA = 1(7) and B = 1(8)
  show ?case
  proof (cases "pending s")
    case False
    with t have "quiet s" by (simp add: pending_def quiet_def tidy_def)
    with P False show ?thesis
      by (simp add: drain_done)
  next
    case busy: True
    show ?thesis
    proof (cases "may_start cfg s")
      case True
      show ?thesis
      proof (cases "parked s = []")
        case e: True
        with True have "(may_start cfg s \<and> parked s = []) \<or> (\<not> may_start cfg s \<and> admitted s = [])"
          by simp
        with P t busy have "Q (blocked cfg (wld s))" by (rule B)
        with e show ?thesis
          by (simp add: drain_admit [OF busy True])
      next
        case False
        have pa: "P (admit s)" using P t False True by (rule A)
        from False t have ta: "tidy (admit s)" by (simp add: admit_tidy)
        have "case RunTasks_drain cfg (admit s) of Inl a \<Rightarrow> Q a | Inr s' \<Rightarrow> P s' \<and> quiet s'"
          by (rule 1(1) [OF busy True False pa ta A C CA B])
        with False show ?thesis by (simp add: drain_admit [OF busy True])
      qed
    next
      case no: False
      show ?thesis
      proof (cases "admitted s = []")
        case True
        with no have "(may_start cfg s \<and> parked s = []) \<or> (\<not> may_start cfg s \<and> admitted s = [])"
          by simp
        with P t busy have "Q (blocked cfg (wld s))" by (rule B)
        with True show ?thesis by (simp add: drain_collect [OF busy no])
      next
        case False
        show ?thesis
        proof (cases "collect cfg s")
          case (Inl a)
          have "Q a" using P t False Inl by (rule CA)
          with False Inl show ?thesis by (simp add: drain_collect [OF busy no])
        next
          case (Inr s')
          have ps: "P s'" using P t False Inr by (rule C)
          from t False Inr have ts: "tidy s'" by (rule collect_tidy)
          have "case RunTasks_drain cfg s' of Inl a \<Rightarrow> Q a | Inr s' \<Rightarrow> P s' \<and> quiet s'"
            by (rule 1(2) [OF busy no False Inr ps ts A C CA B])
          with False Inr show ?thesis by (simp add: drain_collect [OF busy no])
        qed
      qed
    qed
  qed
qed

lemma serial_rule:
  assumes "P s" and "tidy s" and "consistent cfg s"
    and "\<And>s task s'. P s \<Longrightarrow> tidy s \<Longrightarrow> consistent cfg s \<Longrightarrow> task \<in> set tasks \<Longrightarrow>
              RunTasks_entry cfg procs task s = Inr s' \<Longrightarrow> P s'"
    and "\<And>s task a. P s \<Longrightarrow> tidy s \<Longrightarrow> consistent cfg s \<Longrightarrow> task \<in> set tasks \<Longrightarrow>
              RunTasks_entry cfg procs task s = Inl a \<Longrightarrow> Q a"
  shows "case RunTasks_serial cfg procs tasks s of
           Inl a \<Rightarrow> Q a | Inr s' \<Rightarrow> P s' \<and> tidy s' \<and> consistent cfg s'"
  using assms
proof (induction tasks arbitrary: s)
  case Nil
  then show ?case by simp
next
  case (Cons task tasks)
  note P = Cons.prems(1) and t = Cons.prems(2) and c = Cons.prems(3)
  have mem: "task \<in> set (task # tasks)" by simp
  show ?case
  proof (cases "RunTasks_entry cfg procs task s")
    case (Inl a)
    have "Q a" using P t c mem Inl by (rule Cons.prems(5))
    with Inl show ?thesis by simp
  next
    case (Inr s')
    have ps: "P s'" using P t c mem Inr by (rule Cons.prems(4))
    have ts: "tidy s'" using entry_tidy [OF c t Inr] .
    have cs: "consistent cfg s'" using entry_consistent [OF c Inr] .
    have E': "\<And>s task s'. P s \<Longrightarrow> tidy s \<Longrightarrow> consistent cfg s \<Longrightarrow> task \<in> set tasks \<Longrightarrow>
              RunTasks_entry cfg procs task s = Inr s' \<Longrightarrow> P s'"
    proof -
      fix s task' s'
      assume "P s" "tidy s" "consistent cfg s" "task' \<in> set tasks" "RunTasks_entry cfg procs task' s = Inr s'"
      moreover then have "task' \<in> set (task # tasks)" by simp
      ultimately show "P s'" using Cons.prems(4) by blast
    qed
    have EA': "\<And>s task a. P s \<Longrightarrow> tidy s \<Longrightarrow> consistent cfg s \<Longrightarrow> task \<in> set tasks \<Longrightarrow>
              RunTasks_entry cfg procs task s = Inl a \<Longrightarrow> Q a"
    proof -
      fix s task' a
      assume "P s" "tidy s" "consistent cfg s" "task' \<in> set tasks" "RunTasks_entry cfg procs task' s = Inl a"
      moreover then have "task' \<in> set (task # tasks)" by simp
      ultimately show "Q a" using Cons.prems(5) by blast
    qed
    have "case RunTasks_serial cfg procs tasks s' of
           Inl a \<Rightarrow> Q a | Inr s' \<Rightarrow> P s' \<and> tidy s' \<and> consistent cfg s'"
      by (rule Cons.IH [OF ps ts cs E' EA'])
    with Inr show ?thesis by simp
  qed
qed

lemma launch_keeps:
  "RunTasks_launch cfg procs task s = Inr s' \<Longrightarrow>
     running s' = running s \<and> admitted s' = admitted s \<and> matchPat s' = matchPat s \<and> matchRe s' = matchRe s
     \<and> choices s' = choices s"
  by (auto dest!: launch_Inr)

lemma entry_keeps:
  assumes "consistent cfg s" "RunTasks_entry cfg procs task s = Inr s'"
  shows "running s' = running s \<and> admitted s' = admitted s \<and> choices s' = choices s"
proof (cases "Compile cfg (match cfg)")
  case (Inl err)
  with assms show ?thesis by (simp add: entry_invalid)
next
  case (Inr re)
  with assms show ?thesis
    by (auto simp: entry_valid split: if_splits dest: launch_keeps)
qed

lemma admit_consistent: "consistent cfg (admit s) = consistent cfg s"
  by (simp add: admit_unfold consistent_def split: option.splits)

lemma collect_consistent:
  assumes "collect cfg s = Inr s'"
  shows "consistent cfg s' = consistent cfg s"
proof -
  obtain i cs where p: "pick (choices s) (length (admitted s)) = (i, cs)"
    by (cases "pick (choices s) (length (admitted s))")
  from collect_Inr [OF assms p] show ?thesis by (auto simp: consistent_def split: option.splits)
qed

lemma quiet_reset:
  "quiet s \<Longrightarrow> s\<lparr>numParallel := 0, parked := [], admitted := [], wld := w\<rparr> = s\<lparr>wld := w\<rparr>"
  by (simp add: quiet_def)

lemma procs_rule:
  assumes P: "P s" and q: "quiet s" and c: "consistent cfg s"
    and G: "\<And>s. P s \<Longrightarrow> quiet s \<Longrightarrow> P (s\<lparr>wld := emit (GOMAXPROCS procs) (wld s)\<rparr>)"
    and E: "\<And>s task s'. P s \<Longrightarrow> tidy s \<Longrightarrow> consistent cfg s \<Longrightarrow> admitted s = [] \<Longrightarrow> running s = 0 \<Longrightarrow>
              task \<in> set tasks \<Longrightarrow> RunTasks_entry cfg procs task s = Inr s' \<Longrightarrow> P s'"
    and EA: "\<And>s task a. P s \<Longrightarrow> tidy s \<Longrightarrow> consistent cfg s \<Longrightarrow> admitted s = [] \<Longrightarrow> running s = 0 \<Longrightarrow>
              task \<in> set tasks \<Longrightarrow> RunTasks_entry cfg procs task s = Inl a \<Longrightarrow> Q a"
    and A: "\<And>s. P s \<Longrightarrow> tidy s \<Longrightarrow> parked s \<noteq> [] \<Longrightarrow> may_start cfg s \<Longrightarrow> P (admit s)"
    and C: "\<And>s s'. P s \<Longrightarrow> tidy s \<Longrightarrow> admitted s \<noteq> [] \<Longrightarrow> collect cfg s = Inr s' \<Longrightarrow> P s'"
    and CA: "\<And>s a. P s \<Longrightarrow> tidy s \<Longrightarrow> admitted s \<noteq> [] \<Longrightarrow> collect cfg s = Inl a \<Longrightarrow> Q a"
    and B: "\<And>s. P s \<Longrightarrow> tidy s \<Longrightarrow> pending s \<Longrightarrow>
           (may_start cfg s \<and> parked s = []) \<or> (\<not> may_start cfg s \<and> admitted s = []) \<Longrightarrow>
           Q (blocked cfg (wld s))"
  shows "case RunTasks_procs cfg tasks procs s of
           Inl a \<Rightarrow> Q a | Inr s' \<Rightarrow> P s' \<and> quiet s' \<and> consistent cfg s'"
proof -
  let ?s0 = "s\<lparr>wld := emit (GOMAXPROCS procs) (wld s)\<rparr>"
  let ?P1 = "\<lambda>s. P s \<and> admitted s = [] \<and> running s = 0"
  let ?P2 = "\<lambda>s. P s \<and> consistent cfg s"
  have p0: "?P1 ?s0" using G [OF P q] q by (simp add: quiet_def)
  have t0: "tidy ?s0" using q by (simp add: quiet_def tidy_def)
  have c0: "consistent cfg ?s0" using c by (simp add: consistent_def split: option.splits)
  have ser: "case RunTasks_serial cfg procs tasks ?s0 of
           Inl a \<Rightarrow> Q a | Inr s' \<Rightarrow> ?P1 s' \<and> tidy s' \<and> consistent cfg s'"
  proof (rule serial_rule [where P = ?P1, OF p0 t0 c0])
    fix s task s'
    assume a: "?P1 s" "tidy s" "consistent cfg s" "task \<in> set tasks" "RunTasks_entry cfg procs task s = Inr s'"
    then have "P s'" using E by blast
    with entry_keeps [OF a(3,5)] a(1) show "?P1 s'" by simp
  next
    fix s task a
    assume a: "?P1 s" "tidy s" "consistent cfg s" "task \<in> set tasks" "RunTasks_entry cfg procs task s = Inl a"
    then show "Q a" using EA by blast
  qed
  show ?thesis
  proof (cases "RunTasks_serial cfg procs tasks ?s0")
    case (Inl a)
    with ser q show ?thesis by (simp add: RunTasks_procs_def quiet_reset)
  next
    case (Inr s1)
    with ser have s1: "P s1" "admitted s1 = []" "running s1 = 0" "tidy s1" "consistent cfg s1" by simp_all
    then have "s1\<lparr>running := 0\<rparr> = s1" by simp
    have "case RunTasks_drain cfg s1 of Inl a \<Rightarrow> Q a | Inr s' \<Rightarrow> ?P2 s' \<and> quiet s'"
    proof (rule drain_rule [where P = ?P2])
      show "?P2 s1" using s1 by simp
      show "tidy s1" by fact
    next
      fix s assume "?P2 s" "tidy s" "parked s \<noteq> []" "may_start cfg s"
      then show "?P2 (admit s)" using A by (simp add: admit_consistent)
    next
      fix s s' assume a: "?P2 s" "tidy s" "admitted s \<noteq> []" "collect cfg s = Inr s'"
      then have "P s'" using C by blast
      with a collect_consistent [OF a(4)] show "?P2 s'" by simp
    next
      fix s a assume "?P2 s" "tidy s" "admitted s \<noteq> []" "collect cfg s = Inl a"
      then show "Q a" using CA by blast
    next
      fix s assume "?P2 s" "tidy s" "pending s"
        "(may_start cfg s \<and> parked s = []) \<or> (\<not> may_start cfg s \<and> admitted s = [])"
      then show "Q (blocked cfg (wld s))" using B by blast
    qed
    with Inr q \<open>s1\<lparr>running := 0\<rparr> = s1\<close> show ?thesis
      by (auto simp: RunTasks_procs_def quiet_reset split: sum.splits)
  qed
qed


lemma boot_quiet: "quiet (boot cs\<lparr>wld := w\<rparr>)" "consistent cfg (boot cs\<lparr>wld := w\<rparr>)" "ok (boot cs\<lparr>wld := w\<rparr>)"
  by (simp_all add: boot_def quiet_def consistent_def)


lemma report_trace': "trace (report cfg t w) = trace w @ Report (signal t) (failed t) # report_out cfg t"
  by (simp add: report_def report_out_def emit_def Let_def Failed_def Skipped_def)

lemma landed_same_id: "run_body as g = (h, g1) \<Longrightarrow> same_id (ctx g) (landed h g1)"
  using run_body_same_id [of as g h g1] unwind_same_id [of g1]
  by (auto simp: landed_def same_id_def)

lemma run_thread_Done_trace:
  assumes "run_thread cfg as g w = (Done t, w')"
  shows "\<exists>es. trace w' = trace w @ shown es @ [Send (signal (ctx g)) True]"
    and "same_id (ctx g) t" and "timer w' = timer w" and "finished t"
proof -
  from run_thread_Done [OF assms] obtain h g1 w1 where
    rb: "run_body as g = (h, g1)" and ae: "apply_effects (effects (unwind g1)) w = (False, w1)"
    and f: "finished (landed h g1)"
    and t: "t = (landed h g1)\<lparr>duration := now w1 - start (landed h g1)\<rparr>"
    and w': "w' = emit (Send (signal (landed h g1)) True) w1"
    by blast
  from landed_same_id [OF rb] have sid: "same_id (ctx g) (landed h g1)" .
  with t show "same_id (ctx g) t" by (simp add: same_id_def)
  from f t show "finished t" by simp
  from apply_effects_False [OF ae] w' show "timer w' = timer w" by (simp add: emit_def)
  from apply_effects_False [OF ae] w' sid
  have "trace w' = trace w @ shown (effects (unwind g1)) @ [Send (signal (ctx g)) True]"
    by (simp add: emit_def same_id_def)
  then show "\<exists>es. trace w' = trace w @ shown es @ [Send (signal (ctx g)) True]"
    by (rule exI [of _ "effects (unwind g1)"])
qed

lemma run_thread_Parked_trace:
  assumes "run_thread cfg as g w = (Parked th, w')"
  shows "\<exists>es. trace w' = trace w @ shown es @ [Send (signal (ctx g)) False]"
    and "same_id (ctx g) (ctx (fr th))" and "timer w' = timer w"
proof -
  from run_thread_Parked [OF assms] obtain g1 w1 where
    rb: "run_body as g = (ParallelH (rest th), g1)" and ae: "apply_effects (effects g1) w = (False, w1)"
    and th: "fr th = g1\<lparr>effects := []\<rparr>"
    and w': "w' = emit (Send (signal (ctx g1)) False) w1"
    by blast
  from run_body_same_id [OF rb] have sid: "same_id (ctx g) (ctx g1)" .
  with th show "same_id (ctx g) (ctx (fr th))" by simp
  from apply_effects_False [OF ae] w' show "timer w' = timer w" by (simp add: emit_def)
  from apply_effects_False [OF ae] w' sid
  have "trace w' = trace w @ shown (effects g1) @ [Send (signal (ctx g)) False]"
    by (simp add: emit_def same_id_def)
  then show "\<exists>es. trace w' = trace w @ shown es @ [Send (signal (ctx g)) False]"
    by (rule exI [of _ "effects g1"])
qed

lemma run_thread_Fault_trace:
  assumes "run_thread cfg as g w = (Fault e t, w')"
  shows "\<exists>es. trace w' = trace w @ shown es @ [Report (signal (ctx g)) True, Stdout (report_line ''FAIL'' t)]"
    and "same_id (ctx g) t" and "timer w' = timer w" and "failed t"
proof -
  from run_thread_Fault [OF assms] obtain h g1 w1 where
    rb: "run_body as g = (h, g1)" and ae: "apply_effects (effects (unwind g1)) w = (False, w1)"
    and t: "t = Fail ((landed h g1)\<lparr>duration := now w1 - start (landed h g1)\<rparr>)"
    and w': "w' = report cfg t w1"
    by blast
  from landed_same_id [OF rb] have sid: "same_id (ctx g) (landed h g1)" .
  with t show sid': "same_id (ctx g) t" by (simp add: same_id_def Fail_def)
  from t show f: "failed t" by (simp add: Fail_def)
  from apply_effects_False [OF ae] have tr: "trace w1 = trace w @ shown (effects (unwind g1))"
    and tm: "timer w1 = timer w"
    by simp_all
  from tm w' show "timer w' = timer w" by (simp add: report_keeps)
  have "trace w' = trace w1 @ Report (signal t) (failed t) # report_out cfg t"
    unfolding w' by (rule report_trace')
  moreover have "report_out cfg t = [Stdout (report_line ''FAIL'' t)]"
    using f by (simp add: report_out_def)
  moreover have "signal t = signal (ctx g)" using sid' by (simp add: same_id_def)
  ultimately have "trace w' = trace w @ shown (effects (unwind g1)) @ [Report (signal (ctx g)) True, Stdout (report_line ''FAIL'' t)]"
    using tr f by simp
  then show "\<exists>es. trace w' = trace w @ shown es @ [Report (signal (ctx g)) True, Stdout (report_line ''FAIL'' t)]"
    by (rule exI [of _ "effects (unwind g1)"])
qed

subsection \<open>The alarm is touched by nothing but Main\<close>








subsection \<open>Effects, expiry, and the end of Main\<close>






lemma apply_effects_expires:
  "timer w = Some d \<Longrightarrow> d \<le> now w + n \<Longrightarrow>
     apply_effects (Elapse n # es) w = (True, w\<lparr>now := max d (now w)\<rparr>)"
  by simp



lemma Main_abort:
  "RunTasks cfg tasks ((boot cs)\<lparr>wld := startAlarm cfg (wld (boot cs))\<rparr>) = Inl a \<Longrightarrow> Main cfg tasks cs = a"
  by (simp add: Main_def Let_def)

lemma Main_return:
  "RunTasks cfg tasks ((boot cs)\<lparr>wld := startAlarm cfg (wld (boot cs))\<rparr>) = Inr s \<Longrightarrow>
   Main cfg tasks cs =
     (if ok s then (Exit 0, emit (Stdout (''PASS'' @ nl)) (stopAlarm cfg (wld s)))
      else (Exit 1, emit (Stdout (''FAIL'' @ nl)) (stopAlarm cfg (wld s))))"
  by (simp add: Main_def Let_def)




subsection \<open>Names\<close>

lemma task_event_shown: "list_all task_event (shown es)"
  by (induction es rule: shown.induct) simp_all

lemma report_out_task_event: "list_all task_event (report_out cfg t)"
  by (simp add: report_out_def)

lemma run_thread_events:
  assumes "run_thread cfg as g w = (r, w')"
  shows "\<exists>es. trace w' = trace w @ es \<and> list_all task_event es"
proof (cases r)
  case (Parked th)
  with assms run_thread_Parked_trace(1) [of cfg as g w th w'] obtain es
    where "trace w' = trace w @ (shown es @ [Send (signal (ctx g)) False])" by auto
  moreover have "list_all task_event (shown es @ [Send (signal (ctx g)) False])"
    by (simp add: task_event_shown)
  ultimately show ?thesis by blast
next
  case (Done t)
  with assms run_thread_Done_trace(1) [of cfg as g w t w'] obtain es
    where "trace w' = trace w @ (shown es @ [Send (signal (ctx g)) True])" by auto
  moreover have "list_all task_event (shown es @ [Send (signal (ctx g)) True])"
    by (simp add: task_event_shown)
  ultimately show ?thesis by blast
next
  case (Fault e t)
  with assms run_thread_Fault_trace(1) [of cfg as g w e t w'] obtain es
    where "trace w' = trace w @ (shown es @ [Report (signal (ctx g)) True, Stdout (report_line ''FAIL'' t)])" by auto
  moreover have "list_all task_event (shown es @ [Report (signal (ctx g)) True, Stdout (report_line ''FAIL'' t)])"
    by (simp add: task_event_shown)
  ultimately show ?thesis by blast
next
  case Expired
  with assms run_thread_Expired [of cfg as g w w'] obtain es
    where "trace w' = trace w @ shown es" by auto
  with task_event_shown show ?thesis by blast
qed

lemma launched_append: "launched (xs @ ys) = launched xs @ launched ys"
  by (induction xs rule: launched.induct) simp_all

lemma launched_task_events: "list_all task_event es \<Longrightarrow> launched es = []"
  by (induction es rule: launched.induct) simp_all

lemma launched_launch_world:
  "launched (trace (launch_world cfg procs task s)) =
     launched (trace (wld s)) @ [name (newT procs task (made s))]"
  by (simp add: launch_world_def emit_def launched_append)

lemma launch_launched:
  assumes "RunTasks_launch cfg procs task s = Inr s'"
  shows "launched (trace (wld s')) = launched (trace (wld s)) @ [name (newT procs task (made s))]"
proof -
  from launch_Inr [OF assms] show ?thesis
  proof (elim disjE exE conjE)
    fix out w2
    assume r: "tRunner cfg (newT procs task (made s)) task (launch_world cfg procs task s) = (Done out, w2)"
      and s': "s' = s\<lparr>made := made s + 1, ok := ok s \<and> \<not> failed out, wld := report cfg out w2\<rparr>"
    from r run_thread_events obtain es where "trace w2 = trace (launch_world cfg procs task s) @ es"
      "list_all task_event es" unfolding tRunner_def by blast
    with s' show ?thesis
      by (simp add: report_trace' launched_append launched_task_events launched_launch_world
            report_out_task_event)
  next
    fix th w2
    assume r: "tRunner cfg (newT procs task (made s)) task (launch_world cfg procs task s) = (Parked th, w2)"
      and s': "s' = s\<lparr>made := made s + 1, parked := parked s @ [th], numParallel := numParallel s + 1, wld := w2\<rparr>"
    from r run_thread_events obtain es where "trace w2 = trace (launch_world cfg procs task s) @ es"
      "list_all task_event es" unfolding tRunner_def by blast
    with s' show ?thesis
      by (simp add: launched_append launched_task_events launched_launch_world)
  qed
qed

lemma newT_name: "name (newT procs task k) = reported_name procs task"
  by (simp add: newT_def reported_name_def Let_def)

lemma entry_launched:
  assumes "consistent cfg s" "RunTasks_entry cfg procs task s = Inr s'"
  shows "launched (trace (wld s')) =
           launched (trace (wld s)) @ (if selected cfg (Name task) then [reported_name procs task] else [])"
proof (cases "Compile cfg (match cfg)")
  case (Inl err)
  with assms show ?thesis by (simp add: entry_invalid)
next
  case (Inr re)
  show ?thesis
  proof (cases "selected cfg (Name task)")
    case True
    with assms Inr have "RunTasks_launch cfg procs task (s\<lparr>matchPat := match cfg, matchRe := Some re\<rparr>) = Inr s'"
      by (simp add: entry_valid)
    from launch_launched [OF this] True show ?thesis by (simp add: newT_name)
  next
    case False
    with assms Inr show ?thesis by (auto simp: entry_valid)
  qed
qed

lemma serial_launched:
  assumes "consistent cfg s" "tidy s" "RunTasks_serial cfg procs tasks s = Inr s'"
  shows "launched (trace (wld s')) =
           launched (trace (wld s)) @ map (reported_name procs) (filter (\<lambda>t. selected cfg (Name t)) tasks)"
  using assms
proof (induction tasks arbitrary: s)
  case Nil
  then show ?case by simp
next
  case (Cons task tasks)
  from Cons.prems(3) obtain s1 where e: "RunTasks_entry cfg procs task s = Inr s1"
    and r: "RunTasks_serial cfg procs tasks s1 = Inr s'"
    by (auto split: sum.splits)
  have "consistent cfg s1" using entry_consistent [OF Cons.prems(1) e] .
  moreover have "tidy s1" using entry_tidy [OF Cons.prems(1,2) e] .
  ultimately have "launched (trace (wld s')) =
           launched (trace (wld s1)) @ map (reported_name procs) (filter (\<lambda>t. selected cfg (Name t)) tasks)"
    using r by (rule Cons.IH)
  with entry_launched [OF Cons.prems(1) e] show ?case by simp
qed

lemma admit_trace: "trace (wld (admit s)) = trace (wld s) @ [Admitted (signal (ctx (fr (parked s ! fst (pick (choices s) (length (parked s)))))))]"
  by (simp add: admit_unfold emit_def)

lemma collect_launched:
  assumes "collect cfg s = Inr s'"
  shows "launched (trace (wld s')) = launched (trace (wld s))"
proof -
  obtain i cs where p: "pick (choices s) (length (admitted s)) = (i, cs)"
    by (cases "pick (choices s) (length (admitted s))")
  from collect_Inr [OF assms p] obtain t w1 where
    r: "run_thread cfg (rest (admitted s ! i)) (fr (admitted s ! i)) (wld s) = (Done t, w1)"
    and s': "wld s' = report cfg t (emit (Collected (signal t)) w1)"
    by auto
  from run_thread_events [OF r] obtain es where "trace w1 = trace (wld s) @ es" "list_all task_event es"
    by blast
  with s' show ?thesis
    by (simp add: report_trace' emit_def launched_append launched_task_events report_out_task_event)
qed

lemma drain_launched:
  assumes "tidy s" "RunTasks_drain cfg s = Inr s'"
  shows "launched (trace (wld s')) = launched (trace (wld s))"
proof -
  let ?P = "\<lambda>x. launched (trace (wld x)) = launched (trace (wld s))"
  have "case RunTasks_drain cfg s of Inl a \<Rightarrow> True | Inr s' \<Rightarrow> ?P s' \<and> quiet s'"
  proof (rule drain_rule [where P = ?P and Q = "\<lambda>a. True", OF _ assms(1)])
    show "?P s" by simp
  next
    fix x :: sched assume "?P x"
    then show "?P (admit x)" by (simp add: admit_trace launched_append)
  next
    fix x :: sched and x' assume "?P x" "collect cfg x = Inr x'"
    then show "?P x'" using collect_launched by simp
  qed simp_all
  with assms(2) show ?thesis by simp
qed

lemma procs_launched:
  assumes "consistent cfg s" "quiet s" "RunTasks_procs cfg tasks procs s = Inr s'"
  shows "launched (trace (wld s')) =
           launched (trace (wld s)) @ map (reported_name procs) (filter (\<lambda>t. selected cfg (Name t)) tasks)"
proof -
  let ?s0 = "s\<lparr>wld := emit (GOMAXPROCS procs) (wld s)\<rparr>"
  from assms(3) assms(2) obtain s1 where ser: "RunTasks_serial cfg procs tasks ?s0 = Inr s1"
    and dr: "RunTasks_drain cfg (s1\<lparr>running := 0\<rparr>) = Inr s'"
    by (auto simp: RunTasks_procs_def quiet_reset split: sum.splits)
  have c0: "consistent cfg ?s0" using assms(1) by (simp add: consistent_def split: option.splits)
  have t0: "tidy ?s0" using assms(2) by (simp add: quiet_def tidy_def)
  have rule: "case RunTasks_serial cfg procs tasks ?s0 of
           Inl a \<Rightarrow> True | Inr s' \<Rightarrow> (admitted s' = [] \<and> running s' = 0) \<and> tidy s' \<and> consistent cfg s'"
  proof (rule serial_rule [where P = "\<lambda>s. admitted s = [] \<and> running s = 0" and Q = "\<lambda>a. True", OF _ t0 c0])
    show "admitted ?s0 = [] \<and> running ?s0 = 0" using assms(2) by (simp add: quiet_def)
  next
    fix x task x' assume "admitted x = [] \<and> running x = 0" "consistent cfg x" "RunTasks_entry cfg procs task x = Inr x'"
    then show "admitted x' = [] \<and> running x' = 0" using entry_keeps [of cfg x procs task x'] by simp
  qed simp
  with ser have s1: "tidy s1" "running s1 = 0" by simp_all
  then have "s1\<lparr>running := 0\<rparr> = s1" by simp
  with dr drain_launched [OF s1(1)] have "launched (trace (wld s')) = launched (trace (wld s1))" by simp
  with serial_launched [OF c0 t0 ser] show ?thesis by (simp add: emit_def launched_append)
qed

lemma sweep_launched:
  assumes "consistent cfg s" "quiet s" "RunTasks_sweep cfg tasks ps s = Inr s'"
  shows "launched (trace (wld s')) =
           launched (trace (wld s)) @
           concat (map (\<lambda>procs. map (reported_name procs) (filter (\<lambda>t. selected cfg (Name t)) tasks)) ps)"
  using assms
proof (induction ps arbitrary: s)
  case Nil
  then show ?case by simp
next
  case (Cons procs ps)
  from Cons.prems(3) obtain s1 where one: "RunTasks_procs cfg tasks procs s = Inr s1"
    and more: "RunTasks_sweep cfg tasks ps s1 = Inr s'"
    by (auto split: sum.splits)
  have "case RunTasks_procs cfg tasks procs s of
           Inl a \<Rightarrow> True | Inr s' \<Rightarrow> True \<and> quiet s' \<and> consistent cfg s'"
    by (rule procs_rule [where P = "\<lambda>s. True" and Q = "\<lambda>a. True", OF _ Cons.prems(2,1)]) simp_all
  with one have "consistent cfg s1" "quiet s1" by simp_all
  from Cons.IH [OF this more] procs_launched [OF Cons.prems(1,2) one] show ?case by simp
qed

lemma launched_Main:
  assumes "RunTasks cfg tasks ((boot cs)\<lparr>wld := startAlarm cfg (wld (boot cs))\<rparr>) = Inr s"
  shows "launched (trace (snd (Main cfg tasks cs))) = launched (trace (wld s))"
  by (simp add: Main_return [OF assms] stopAlarm_def emit_def launched_append)

lemma returned: "(case x of Inl a \<Rightarrow> False | Inr s \<Rightarrow> True) \<Longrightarrow> x = Inr (projr x)"
  by (cases x) simp_all

lemma Main_launched:
  assumes "RunTasks cfg tasks ((boot cs)\<lparr>wld := startAlarm cfg (wld (boot cs))\<rparr>) = Inr s"
  shows "launched (trace (snd (Main cfg tasks cs))) =
           concat (map (\<lambda>procs. map (reported_name procs) (filter (\<lambda>t. selected cfg (Name t)) tasks))
                       (cpuList cfg))"
proof (cases "tasks = []")
  case True
  with assms have "trace (wld s) = [Stderr (''tasking: warning: no tasks to run'' @ nl)]"
    by (auto simp: RunTasks_def boot_def startAlarm_def emit_def)
  with True launched_Main [OF assms] show ?thesis by simp
next
  case False
  let ?s0 = "(boot cs)\<lparr>wld := startAlarm cfg (wld (boot cs))\<rparr>"
  have "?s0\<lparr>ok := True\<rparr> = ?s0" by (simp add: boot_def)
  with assms False have sw: "RunTasks_sweep cfg tasks (cpuList cfg) ?s0 = Inr s"
    by (simp add: RunTasks_def)
  have "launched (trace (wld ?s0)) = []"
    by (simp add: boot_def startAlarm_def)
  with sweep_launched [OF boot_quiet(2) boot_quiet(1) sw] launched_Main [OF assms]
  show ?thesis by simp
qed

subsection \<open>The selector\<close>

lemma invalid_pattern:
  assumes "tasks \<noteq> []" "cpuList cfg = p # ps" "Compile cfg (match cfg) = Inl err"
  shows "Main cfg tasks cs =
           (Exit 1,
            \<lparr>now = 0, timer = (if 0 < timeout cfg then Some (nat (timeout cfg)) else None),
             trace = [GOMAXPROCS p, Stderr (''tasking: invalid regexp for -task.run: '' @ err @ nl)]\<rparr>)"
proof -
  let ?s0 = "(boot cs)\<lparr>wld := startAlarm cfg (wld (boot cs))\<rparr>"
  let ?s1 = "(boot cs)\<lparr>wld := emit (GOMAXPROCS p) (startAlarm cfg (wld (boot cs)))\<rparr>"
  from assms(1) obtain task post where tasks: "tasks = task # post" by (cases tasks) auto
  have c1: "consistent cfg ?s1" by (simp add: consistent_def boot_def)
  have e: "RunTasks_entry cfg p task ?s1 =
          Inl (Exit 1, emit (Stderr (''tasking: invalid regexp for -task.run: '' @ err @ nl)) (wld ?s1))"
    by (rule entry_invalid [OF c1 assms(3)])
  have "?s0\<lparr>ok := True\<rparr> = ?s0" by (simp add: boot_def)
  moreover have "?s0\<lparr>numParallel := 0, parked := [], admitted := [], wld := emit (GOMAXPROCS p) (wld ?s0)\<rparr> = ?s1"
    by (simp add: boot_def)
  ultimately have "RunTasks cfg tasks ?s0 =
          Inl (Exit 1, emit (Stderr (''tasking: invalid regexp for -task.run: '' @ err @ nl)) (wld ?s1))"
    using assms(2) e tasks by (simp add: RunTasks_def RunTasks_procs_def)
  from Main_abort [OF this] show ?thesis
    by (simp add: emit_def startAlarm_def boot_def)
qed

lemma empty_pattern:
  assumes "match cfg = []" "Compile cfg [] = Inr re" "\<forall>n. re n" "consistent cfg s"
  shows "fst (matchString (Compile cfg) (match cfg) n (matchPat s, matchRe s)) = Inr True"
  using matchString_consistent [OF assms(4), of n] assms(1-3) by simp

subsection \<open>Output\<close>







subsection \<open>Faults\<close>


lemma launch_world_matcher [simp]:
  "launch_world cfg procs task (s\<lparr>matchPat := p, matchRe := r\<rparr>) = launch_world cfg procs task s"
  by (simp add: launch_world_def)

lemma first_frame_matcher [simp]:
  "first_frame cfg procs task (s\<lparr>matchPat := p, matchRe := r\<rparr>) = first_frame cfg procs task s"
  by (simp add: first_frame_def)









subsection \<open>FailNow\<close>


lemma run_body_straight_Return:
  "list_all straight pre \<Longrightarrow> fst (run_body pre g) = Return"
proof (induction pre arbitrary: g)
  case Nil
  show ?case by simp
next
  case (Cons a pre)
  then show ?case by (cases a) simp_all
qed









section \<open>Properties\<close>

subsection \<open>The empty registry\<close>

text \<open>
  C10. With an empty registry \<open>RunTasks\<close> writes its warning to standard error and
  returns true at once: no round of the loop over \<open>cpuList\<close> runs (the trace has no
  \<open>GOMAXPROCS\<close>), \<open>Main\<close> prints \<open>PASS\<close>, and the process ends with status 0.
\<close>

theorem C10_empty_registry:
  "RunTasks cfg [] s =
     Inr (s\<lparr>ok := True, wld := emit (Stderr (''tasking: warning: no tasks to run'' @ nl)) (wld s)\<rparr>)
   \<and> Main cfg [] cs =
     (Exit 0, \<lparr>now = 0, timer = None,
               trace = [Stderr (''tasking: warning: no tasks to run'' @ nl), Stdout (''PASS'' @ nl)]\<rparr>)
   \<and> exit_code (fst (Main cfg [] cs)) = 0"
  by (cases "0 < timeout cfg")
     (simp_all add: RunTasks_def Main_def boot_def startAlarm_def stopAlarm_def emit_def Let_def)

theorem C10_empty_registry_witness:
  "stderr (trace (snd (Main example_config [] []))) = ''tasking: warning: no tasks to run'' @ nl
   \<and> stdout (trace (snd (Main example_config [] []))) = ''PASS'' @ nl
   \<and> exit_code (fst (Main example_config [] [])) = 0"
  using C10_empty_registry [of example_config "boot []" "[]"] by simp

subsection \<open>Names in a sweep\<close>

text \<open>
  C7. In a run from which \<open>RunTasks\<close> returns, the names of the contexts made are, round
  by round of \<open>cpuList\<close> and in registry order, the names of the selected tasks, each
  suffixed with \<open>-<procs>\<close> exactly when \<open>procs\<close> is not 1 (\<open>reported_name\<close>).
  This name is the one in the \<open>=== RUN\<close> line and in the report of the context.
\<close>

theorem C7_degree_suffix:
  assumes "RunTasks cfg tasks ((boot cs)\<lparr>wld := startAlarm cfg (wld (boot cs))\<rparr>) = Inr s"
  shows "launched (trace (snd (Main cfg tasks cs))) =
           concat (map (\<lambda>procs. map (reported_name procs) (filter (\<lambda>t. selected cfg (Name t)) tasks))
                       (cpuList cfg))"
  using assms by (rule Main_launched)

text \<open>With the degrees 1 and 2, the second round carries the suffix \<open>-2\<close> and the first none.\<close>

theorem C7_degree_suffix_witness:
  "launched (trace (snd (Main (example_config\<lparr>cpuList := [1, 2]\<rparr>) [TaskA, TaskHello] []))) =
     [''TaskA'', ''TaskHello'', ''TaskA-2'', ''TaskHello-2'']"
proof -
  let ?c = "example_config\<lparr>cpuList := [1, 2]\<rparr>"
  let ?r = "RunTasks ?c [TaskA, TaskHello] ((boot [])\<lparr>wld := startAlarm ?c (wld (boot []))\<rparr>)"
  have "case ?r of Inl a \<Rightarrow> False | Inr s \<Rightarrow> True"
    by code_simp
  then have "?r = Inr (projr ?r)" by (rule returned)
  from C7_degree_suffix [OF this] show ?thesis
    by (simp add: example_config_def selected_def example_Compile_def TaskA_def TaskHello_def
          reported_name_def show_nat.simps [of 2] digit_def)
qed

subsection \<open>The alarm\<close>




subsection \<open>The selector\<close>

text \<open>
  C6, as the code has it. If the regexp library compiles the empty pattern to an
  expression that matches every string, \<open>matchString\<close> answers true for every name.
  With a non-empty registry, a pattern that does not compile ends the process in the first
  round, at the first entry: \<open>os.Exit(1)\<close> after the message on standard error, with
  no task goroutine started and nothing on standard output. (With an empty registry
  \<open>RunTasks\<close> returns before it compiles the pattern.)
\<close>

theorem C6_selector:
  "(match cfg = [] \<and> Compile cfg [] = Inr re \<and> (\<forall>n. re n) \<and> consistent cfg s \<longrightarrow>
      fst (matchString (Compile cfg) (match cfg) n (matchPat s, matchRe s)) = Inr True)
   \<and> (tasks \<noteq> [] \<and> cpuList cfg = p # ps \<and> Compile cfg (match cfg) = Inl err \<longrightarrow>
        Main cfg tasks cs =
           (Exit 1,
            \<lparr>now = 0, timer = (if 0 < timeout cfg then Some (nat (timeout cfg)) else None),
             trace = [GOMAXPROCS p, Stderr (''tasking: invalid regexp for -task.run: '' @ err @ nl)]\<rparr>)
        \<and> launched (trace (snd (Main cfg tasks cs))) = []
        \<and> stdout (trace (snd (Main cfg tasks cs))) = [])"
proof (intro conjI impI)
  assume "match cfg = [] \<and> Compile cfg [] = Inr re \<and> (\<forall>n. re n) \<and> consistent cfg s"
  then show "fst (matchString (Compile cfg) (match cfg) n (matchPat s, matchRe s)) = Inr True"
    using empty_pattern by blast
next
  assume a: "tasks \<noteq> [] \<and> cpuList cfg = p # ps \<and> Compile cfg (match cfg) = Inl err"
  then show m: "Main cfg tasks cs =
           (Exit 1,
            \<lparr>now = 0, timer = (if 0 < timeout cfg then Some (nat (timeout cfg)) else None),
             trace = [GOMAXPROCS p, Stderr (''tasking: invalid regexp for -task.run: '' @ err @ nl)]\<rparr>)"
    using invalid_pattern by blast
  from m show "launched (trace (snd (Main cfg tasks cs))) = []" by simp
  from m show "stdout (trace (snd (Main cfg tasks cs))) = []" by simp
qed

text \<open>The empty pattern on \<open>TaskA\<close>, and the pattern \<open>(\<close> on the registry of \<open>TaskA\<close>.\<close>

theorem C6_selector_witness:
  "fst (matchString example_Compile [] ''TaskA'' ([], None)) = Inr True
   \<and> fst (Main (example_config\<lparr>match := ''(''\<rparr>) [TaskA] []) = Exit 1
   \<and> launched (trace (snd (Main (example_config\<lparr>match := ''(''\<rparr>) [TaskA] []))) = []
   \<and> stderr (trace (snd (Main (example_config\<lparr>match := ''(''\<rparr>) [TaskA] []))) =
       ''tasking: invalid regexp for -task.run: error parsing regexp: missing closing ): `(`'' @ nl"
proof -
  have h1: "match example_config = [] \<and> Compile example_config [] = Inr (contains []) \<and>
        (\<forall>n. contains [] n) \<and> consistent example_config (boot [])"
  proof -
    have "contains [] n" for n by (induction n) simp_all
    then show ?thesis by (simp add: example_config_def example_Compile_def consistent_def boot_def)
  qed
  have h2: "[TaskA] \<noteq> [] \<and> cpuList (example_config\<lparr>match := ''(''\<rparr>) = 1 # [] \<and>
        Compile (example_config\<lparr>match := ''(''\<rparr>) (match (example_config\<lparr>match := ''(''\<rparr>)) =
          Inl ''error parsing regexp: missing closing ): `(`''"
    by (simp add: example_config_def example_Compile_def)
  note inst1 = C6_selector [where cfg = example_config and re = "contains []" and s = "boot []"
      and n = "''TaskA''", THEN conjunct1, rule_format, OF h1]
  note inst2 = C6_selector [where cfg = "example_config\<lparr>match := ''(''\<rparr>" and tasks = "[TaskA]"
      and p = 1 and ps = "[]" and err = "''error parsing regexp: missing closing ): `(`''" and cs = "[]",
      THEN conjunct2, rule_format, OF h2]
  from inst1 have "fst (matchString example_Compile [] ''TaskA'' ([], None)) = Inr True"
    by (simp add: example_config_def boot_def)
  with inst2 show ?thesis by simp
qed

text \<open>
  The claim that an invalid pattern is always fatal fails on the empty registry: the
  pattern \<open>(\<close> does not compile, and the run prints \<open>PASS\<close> with status 0.
\<close>

theorem C6_selector_counterexample:
  "Compile (example_config\<lparr>match := ''(''\<rparr>) (match (example_config\<lparr>match := ''(''\<rparr>)) =
     Inl ''error parsing regexp: missing closing ): `(`''
   \<and> Main (example_config\<lparr>match := ''(''\<rparr>) [] [] =
     (Exit 0, \<lparr>now = 0, timer = None,
               trace = [Stderr (''tasking: warning: no tasks to run'' @ nl), Stdout (''PASS'' @ nl)]\<rparr>)"
  by (simp add: example_config_def example_Compile_def Main_def RunTasks_def boot_def startAlarm_def
        stopAlarm_def emit_def Let_def)

subsection \<open>The reporter\<close>




subsection \<open>The double fault\<close>



subsection \<open>FailNow\<close>



end
